theory Spec2Isabelle
  imports Complex_Main "HOL-Library.Sublist"
begin

section \<open>Python strings\<close>

text \<open>
  The converter \<^verbatim>\<open>processar_pdf_para_streamlit\<close> of \<^verbatim>\<open>pdf_converter_app.py\<close> works on
  Python \<^verbatim>\<open>str\<close> values, which are sequences of Unicode code points. A character is
  modelled as its code point and a string as the list of its characters; \<open>ustr ''abc''\<close> is
  the string of a literal, and the accented letters of the messages are written as their
  code points (\<open>0xE7\<close> and the like).
\<close>

type_synonym uchar = nat

type_synonym ustring = "uchar list"

abbreviation (input) ustr :: "string \<Rightarrow> ustring" where
  "ustr s \<equiv> map of_char s"

abbreviation (input) NEWLINE :: uchar where
  "NEWLINE \<equiv> 0x0A"

abbreviation (input) DOT :: uchar where
  "DOT \<equiv> 0x2E"

abbreviation (input) COMMA :: uchar where
  "COMMA \<equiv> 0x2C"

abbreviation (input) MINUS :: uchar where
  "MINUS \<equiv> 0x2D"

text \<open>
  \<^verbatim>\<open>str.isspace\<close>, which decides what \<^verbatim>\<open>str.strip()\<close> removes and what the pattern class
  \<^verbatim>\<open>\s\<close> accepts: TAB, LF, VT, FF, CR, FS, GS, RS, US, SPACE, NEL, NBSP, the Ogham space
  mark, EN QUAD to HAIR SPACE, the line and the paragraph separator, the narrow no-break
  space, the medium mathematical space and the ideographic space.
\<close>

definition isspace :: "uchar \<Rightarrow> bool" where
  "isspace c = (c \<in> {0x09..0x0D} \<union> {0x1C..0x20} \<union> {0x85, 0xA0, 0x1680} \<union> {0x2000..0x200A} \<union>
      {0x2028, 0x2029, 0x202F, 0x205F, 0x3000})"

text \<open>
  The decimal digits (category Nd), which the pattern class \<^verbatim>\<open>\d\<close> accepts and
  \<^verbatim>\<open>float\<close> reads: they come in runs of ten consecutive code points, from the digit zero
  of a script to its digit nine. \<open>digit_zeros\<close> lists the zeros of the Unicode database
  14.0, the one of Python 3.11; \<open>decimal c\<close> is the value of the digit \<open>c\<close>.
\<close>

definition digit_zeros :: "uchar list" where
  "digit_zeros =
    [0x30, 0x660, 0x6F0, 0x7C0, 0x966, 0x9E6, 0xA66, 0xAE6, 0xB66, 0xBE6,
     0xC66, 0xCE6, 0xD66, 0xDE6, 0xE50, 0xED0, 0xF20, 0x1040, 0x1090, 0x17E0,
     0x1810, 0x1946, 0x19D0, 0x1A80, 0x1A90, 0x1B50, 0x1BB0, 0x1C40, 0x1C50, 0xA620,
     0xA8D0, 0xA900, 0xA9D0, 0xA9F0, 0xAA50, 0xABF0, 0xFF10, 0x104A0, 0x10D30, 0x11066,
     0x110F0, 0x11136, 0x111D0, 0x112F0, 0x11450, 0x114D0, 0x11650, 0x116C0, 0x11730, 0x118E0,
     0x11950, 0x11C50, 0x11D50, 0x11DA0, 0x16A60, 0x16AC0, 0x16B50, 0x1D7CE, 0x1D7D8, 0x1D7E2,
     0x1D7EC, 0x1D7F6, 0x1E140, 0x1E2F0, 0x1E950, 0x1FBF0]"

definition decimal :: "uchar \<Rightarrow> nat option" where
  "decimal c = map_option (\<lambda>z. c - z) (find (\<lambda>z. z \<le> c \<and> c < z + 10) digit_zeros)"

definition isdecimal :: "uchar \<Rightarrow> bool" where
  "isdecimal c = (decimal c \<noteq> None)"

text \<open>\<^verbatim>\<open>s.strip()\<close>: leading and trailing whitespace removed.\<close>

definition strip :: "ustring \<Rightarrow> ustring" where
  "strip s = rev (dropWhile isspace (rev (dropWhile isspace s)))"

text \<open>\<^verbatim>\<open>sub in s\<close> and \<^verbatim>\<open>s.startswith(p)\<close>.\<close>

definition contains :: "ustring \<Rightarrow> ustring \<Rightarrow> bool" where
  "contains sub s = sublist sub s"

definition startswith :: "ustring \<Rightarrow> ustring \<Rightarrow> bool" where
  "startswith s p = prefix p s"

text \<open>\<^verbatim>\<open>s.replace(old, new)\<close> for a one-character \<^verbatim>\<open>old\<close>.\<close>

definition replace :: "ustring \<Rightarrow> uchar \<Rightarrow> ustring \<Rightarrow> ustring" where
  "replace s old new = concat (map (\<lambda>c. if c = old then new else [c]) s)"

text \<open>\<^verbatim>\<open>text.split('\n')\<close>.\<close>

fun split_nl :: "ustring \<Rightarrow> ustring list" where
  "split_nl [] = [[]]"
| "split_nl (c # cs) =
     (if c = NEWLINE then [] # split_nl cs
      else (case split_nl cs of [] \<Rightarrow> [[c]] | l # ls \<Rightarrow> (c # l) # ls))"

text \<open>The decimal text of a count, as an f-string prints it.\<close>

definition digit_char :: "nat \<Rightarrow> uchar" where
  "digit_char d = ustr ''0123456789'' ! d"

definition digit_of :: "uchar \<Rightarrow> nat" where
  "digit_of c = (case decimal c of Some d \<Rightarrow> d | None \<Rightarrow> 0)"

fun str_nat :: "nat \<Rightarrow> ustring" where
  "str_nat n = (if n < 10 then [digit_char n] else str_nat (n div 10) @ [digit_char (n mod 10)])"

declare str_nat.simps [simp del]

section \<open>The pattern matcher\<close>

text \<open>
  \<^verbatim>\<open>data_pattern = re.compile(r'^(\S+)\s+(.*?)\s+(\d{1,3}(?:\.\d{3})*,\d{2})$')\<close>

  The pattern is kept as a syntax tree and run by a backtracking matcher. A match state
  is the position in the subject and the spans of the groups closed so far. \<open>ms s r x\<close>
  lists the states in which \<open>r\<close> can end when started in \<open>x\<close>, in the order in which
  Python's backtracking tries them: a greedy repetition tries one more iteration before
  it tries to stop, a lazy one the other way round. \<^verbatim>\<open>pattern.match(s)\<close> is the first
  state of that list.

  The pattern is a \<^verbatim>\<open>str\<close> pattern, so its classes are the Unicode ones: \<^verbatim>\<open>\s\<close> is
  \<open>isspace\<close>, \<^verbatim>\<open>\S\<close> its complement and \<^verbatim>\<open>\d\<close> is \<open>isdecimal\<close>.
\<close>

datatype cclass = Space | NonSpace | Digit | AnyChar | Lit uchar

fun holds :: "cclass \<Rightarrow> uchar \<Rightarrow> bool" where
  "holds Space c = isspace c"
| "holds NonSpace c = (\<not> isspace c)"
| "holds Digit c = isdecimal c"
| "holds AnyChar c = (c \<noteq> NEWLINE)"
| "holds (Lit a) c = (c = a)"

datatype regex =
    Atom cclass
  | Cat regex regex
  | Repeat regex nat "nat option" bool
  | Group nat regex
  | Bol
  | Eol

type_synonym mstate = "nat \<times> (nat \<rightharpoonup> nat \<times> nat)"

primrec depth :: "regex \<Rightarrow> nat" where
  "depth (Atom c) = 0"
| "depth (Cat a b) = Suc (depth a + depth b)"
| "depth (Repeat r lo hi g) = Suc (depth r)"
| "depth (Group n r) = Suc (depth r)"
| "depth Bol = 0"
| "depth Eol = 0"

text \<open>
  \<open>Repeat r lo hi g\<close> is \<open>r{lo,hi}\<close> (\<open>hi = None\<close>: unbounded), greedy when \<open>g\<close>. An
  iteration has to consume input to count; the repeated parts of \<open>data_pattern\<close> always
  consume a character. \<open>AnyChar\<close> is \<^verbatim>\<open>.\<close> without DOTALL; \<open>Eol\<close> is \<^verbatim>\<open>$\<close> without
  MULTILINE: the end of the subject, or the position of a final newline.
\<close>

function (sequential) ms :: "ustring \<Rightarrow> regex \<Rightarrow> mstate \<Rightarrow> mstate list" where
  "ms s (Atom c) (i, caps) = (if i < length s \<and> holds c (s ! i) then [(Suc i, caps)] else [])"
| "ms s (Cat a b) x = concat (map (ms s b) (ms s a x))"
| "ms s (Repeat r lo hi g) (i, caps) =
     (let more = (if hi = Some 0 then []
                  else concat (map (ms s (Repeat r (lo - 1) (map_option (\<lambda>h. h - 1) hi) g))
                         (filter (\<lambda>(j, _). i < j \<and> j \<le> length s) (ms s r (i, caps)))));
          stop = (if lo = 0 then [(i, caps)] else [])
      in if g then more @ stop else stop @ more)"
| "ms s (Group n r) (i, caps) = map (\<lambda>(j, caps'). (j, caps'(n \<mapsto> (i, j)))) (ms s r (i, caps))"
| "ms s Bol (i, caps) = (if i = 0 then [(i, caps)] else [])"
| "ms s Eol (i, caps) =
     (if i = length s \<or> (Suc i = length s \<and> s ! i = NEWLINE) then [(i, caps)] else [])"
  by pat_completeness auto
termination
  by (relation "measures [\<lambda>(s, r, x). depth r, \<lambda>(s, r, x). length s - fst x]") auto

declare ms.simps [simp del]

text \<open>The amount token \<^verbatim>\<open>\d{1,3}(?:\.\d{3})*,\d{2}\<close> and the whole pattern.\<close>

definition amount_re :: regex where
  "amount_re = Cat (Repeat (Atom Digit) 1 (Some 3) True)
     (Cat (Repeat (Cat (Atom (Lit DOT)) (Repeat (Atom Digit) 3 (Some 3) True)) 0 None True)
       (Cat (Atom (Lit COMMA)) (Repeat (Atom Digit) 2 (Some 2) True)))"

definition data_pattern :: regex where
  "data_pattern = Cat Bol (Cat (Group 1 (Repeat (Atom NonSpace) 1 None True))
     (Cat (Repeat (Atom Space) 1 None True)
       (Cat (Group 2 (Repeat (Atom AnyChar) 0 None False))
         (Cat (Repeat (Atom Space) 1 None True)
           (Cat (Group 3 amount_re) Eol)))))"

text \<open>\<^verbatim>\<open>pattern.match(s)\<close>: \<open>None\<close>, or the text of each group (\<^verbatim>\<open>match.group(n)\<close>).\<close>

definition group_text :: "ustring \<Rightarrow> (nat \<rightharpoonup> nat \<times> nat) \<Rightarrow> nat \<Rightarrow> ustring" where
  "group_text s caps n = (case caps n of None \<Rightarrow> [] | Some (a, b) \<Rightarrow> take (b - a) (drop a s))"

definition re_match :: "regex \<Rightarrow> ustring \<Rightarrow> (nat \<Rightarrow> ustring) option" where
  "re_match r s = (case ms s r (0, Map.empty) of
      [] \<Rightarrow> None
    | (j, caps) # _ \<Rightarrow> Some (group_text s caps))"

section \<open>Python floats\<close>

text \<open>
  A float is an IEEE 754 binary64 number. A finite one other than the negative zero is
  kept as the rational it is equal to; \<open>Finite 0\<close> is the positive zero.
\<close>

datatype pyfloat = Finite rat | PosInf | NegInf | NegZero | NaN

datatype error = ValueError

fun negate :: "pyfloat \<Rightarrow> pyfloat" where
  "negate (Finite v) = (if v = 0 then NegZero else Finite (- v))"
| "negate PosInf = NegInf"
| "negate NegInf = PosInf"
| "negate NegZero = Finite 0"
| "negate NaN = NaN"

text \<open>The integer nearest to \<open>a / b\<close>, the even one of two that are equally near.\<close>

definition round_half_even :: "nat \<Rightarrow> nat \<Rightarrow> nat" where
  "round_half_even a b = (let f = a div b; r = a mod b in
     if 2 * r < b then f else if b < 2 * r then f + 1 else if even f then f else f + 1)"

fun bit_length :: "nat \<Rightarrow> nat" where
  "bit_length n = (if n = 0 then 0 else Suc (bit_length (n div 2)))"

declare bit_length.simps [simp del]

definition pow2 :: "int \<Rightarrow> rat" where
  "pow2 k = (if 0 \<le> k then 2 ^ nat k else 1 / 2 ^ nat (- k))"

text \<open>\<open>pow2_le k p q\<close> is \<open>2\<^sup>k \<le> p / q\<close>, and \<open>floor_log2 p q\<close> the \<open>l\<close> with
  \<open>2\<^sup>l \<le> p / q < 2\<^sup>l\<^sup>+\<^sup>1\<close>, for positive \<open>p\<close> and \<open>q\<close>.\<close>

definition pow2_le :: "int \<Rightarrow> nat \<Rightarrow> nat \<Rightarrow> bool" where
  "pow2_le k p q = (if 0 \<le> k then q * 2 ^ nat k \<le> p else q \<le> p * 2 ^ nat (- k))"

definition floor_log2 :: "nat \<Rightarrow> nat \<Rightarrow> int" where
  "floor_log2 p q = (let k = int (bit_length p) - int (bit_length q) in
     if pow2_le k p q then k else k - 1)"

text \<open>
  \<open>binary64 p q\<close> is the float nearest to the fraction \<open>p / q\<close>, ties to even: a mantissa
  of 53 bits \<open>m\<close> and an exponent \<open>e\<close>, not below the \<open>-1074\<close> of the subnormal numbers,
  with the value \<open>m * 2\<^sup>e\<close>; a value of \<open>2\<^sup>1\<^sup>0\<^sup>2\<^sup>4\<close> or more is infinity.
\<close>

definition binary64 :: "nat \<Rightarrow> nat \<Rightarrow> pyfloat" where
  "binary64 p q = (if p = 0 then Finite 0
     else let e = max (floor_log2 p q - 52) (- 1074);
              m = (if 0 \<le> e then round_half_even p (q * 2 ^ nat e)
                   else round_half_even (p * 2 ^ nat (- e)) q);
              v = of_nat m * pow2 e
          in if pow2 1024 \<le> v then PosInf else Finite v)"

definition digits_value :: "ustring \<Rightarrow> nat" where
  "digits_value ds = foldl (\<lambda>a c. 10 * a + digit_of c) 0 ds"

text \<open>
  \<^verbatim>\<open>float(text)\<close> for a \<^verbatim>\<open>str\<close>. The text is first brought to ASCII: a character below
  127 stays, any other blank becomes a space and any other decimal digit its ASCII
  digit; the first character that is neither becomes \<^verbatim>\<open>?\<close> and ends the text.
\<close>

fun to_ascii :: "ustring \<Rightarrow> ustring" where
  "to_ascii [] = []"
| "to_ascii (c # cs) =
     (if c < 127 then c # to_ascii cs
      else if isspace c then 0x20 # to_ascii cs
      else (case decimal c of None \<Rightarrow> [0x3F] | Some d \<Rightarrow> (0x30 + d) # to_ascii cs))"

definition ascii_digit :: "uchar \<Rightarrow> bool" where
  "ascii_digit c = (0x30 \<le> c \<and> c \<le> 0x39)"

definition ascii_space :: "uchar \<Rightarrow> bool" where
  "ascii_space c = (c \<in> {0x09..0x0D} \<union> {0x20})"

text \<open>
  Underscores are taken out; each has to stand between two digits. \<open>prev\<close> is the
  character before the rest of the text, 0 at its start.
\<close>

fun remove_underscores :: "uchar \<Rightarrow> ustring \<Rightarrow> ustring option" where
  "remove_underscores prev [] = (if prev = 0x5F then None else Some [])"
| "remove_underscores prev (c # cs) =
     (if c = 0x5F then (if ascii_digit prev then remove_underscores c cs else None)
      else if prev = 0x5F \<and> \<not> ascii_digit c then None
      else map_option ((#) c) (remove_underscores c cs))"

text \<open>Then the ASCII blanks at both ends are dropped.\<close>

definition strip_ascii :: "ustring \<Rightarrow> ustring" where
  "strip_ascii s = rev (dropWhile ascii_space (rev (dropWhile ascii_space s)))"

text \<open>
  What is left is an optional sign and then a name of infinity or of NaN, in any case of
  the letters, or a decimal number: digits with an optional point among them, at least
  one digit in all, and an optional exponent of \<^verbatim>\<open>e\<close> or \<^verbatim>\<open>E\<close>, an optional sign and
  digits. \<open>split_sign\<close> takes a sign off, \<open>exponent\<close> reads the text after the mantissa,
  \<open>number\<close> gives the digits of the mantissa as a natural number \<open>m\<close> and the power of ten
  \<open>k\<close> that scales it, and \<open>scaled m k\<close> is the float nearest to \<open>m * 10\<^sup>k\<close>.
\<close>

definition split_sign :: "ustring \<Rightarrow> bool \<times> ustring" where
  "split_sign s = (case s of
       [] \<Rightarrow> (False, [])
     | c # r \<Rightarrow> if c = MINUS then (True, r) else if c = 0x2B then (False, r) else (False, s))"

definition exponent :: "ustring \<Rightarrow> int option" where
  "exponent r = (case r of
       [] \<Rightarrow> Some 0
     | c # r1 \<Rightarrow>
         if c = 0x65 \<or> c = 0x45
         then (let (neg, ds) = split_sign r1 in
               if ds \<noteq> [] \<and> list_all ascii_digit ds
               then Some (if neg then - int (digits_value ds) else int (digits_value ds))
               else None)
         else None)"

definition number :: "ustring \<Rightarrow> (nat \<times> int) option" where
  "number s = (let ip = takeWhile ascii_digit s; r = dropWhile ascii_digit s;
                   (fp, r') = (case r of
                       [] \<Rightarrow> ([], [])
                     | c # t \<Rightarrow> if c = DOT then (takeWhile ascii_digit t, dropWhile ascii_digit t)
                                else ([], r))
               in if ip = [] \<and> fp = [] then None
                  else map_option (\<lambda>e. (digits_value (ip @ fp), e - int (length fp))) (exponent r'))"

definition scaled :: "nat \<Rightarrow> int \<Rightarrow> pyfloat" where
  "scaled m k = (if 0 \<le> k then binary64 (m * 10 ^ nat k) 1 else binary64 m (10 ^ nat (- k)))"

definition lower :: "uchar \<Rightarrow> uchar" where
  "lower c = (if 0x41 \<le> c \<and> c \<le> 0x5A then c + 0x20 else c)"

definition unsigned :: "ustring \<Rightarrow> pyfloat option" where
  "unsigned s =
     (if map lower s = ustr ''inf'' \<or> map lower s = ustr ''infinity'' then Some PosInf
      else if map lower s = ustr ''nan'' then Some NaN
      else map_option (\<lambda>(m, k). scaled m k) (number s))"

definition py_float :: "ustring \<Rightarrow> error + pyfloat" where
  "py_float text = (case remove_underscores 0 (to_ascii text) of
       None \<Rightarrow> Inl ValueError
     | Some t \<Rightarrow>
         (let (neg, body) = split_sign (strip_ascii t) in
          case unsigned body of
            None \<Rightarrow> Inl ValueError
          | Some x \<Rightarrow> Inr (if neg then negate x else x)))"

section \<open>The converter\<close>

text \<open>
  The body of \<^verbatim>\<open>processar_pdf_para_streamlit\<close>. A row of \<^verbatim>\<open>extracted_data\<close> is the list
  \<^verbatim>\<open>[classificacao, denominacao, valor_float]\<close>; the state of the loop over the lines is
  the four variables it assigns.
\<close>

type_synonym row = "ustring \<times> ustring \<times> pyfloat"

record state =
  extracted_data :: "row list"
  in_data_section :: bool
  info_messages :: "ustring list"
  line_number :: nat

definition msg_section_started :: "nat \<Rightarrow> ustring" where
  "msg_section_started n =
     ustr ''Info Linha '' @ str_nat n @ ustr '': Se'' @ [0xE7, 0xE3] @ ustr ''o de dados iniciada.''"

definition msg_invalid_amount :: "nat \<Rightarrow> ustring \<Rightarrow> ustring \<Rightarrow> ustring" where
  "msg_invalid_amount n valor_str cleaned_line =
     ustr ''Aviso Linha '' @ str_nat n @ ustr '': Valor '' @ [0x27] @ valor_str @ [0x27] @
     ustr '' inv'' @ [0xE1] @ ustr ''lido na linha: '' @ cleaned_line"

text \<open>
  The two tests at the head of the loop body decide what happens to a line: the header
  of the table switches the section on, a line outside the section or a structural line
  inside it is passed over (\<^verbatim>\<open>continue\<close>), and any other line goes on to the pattern.
\<close>

datatype scanned = SectionStart | Discarded | Candidate ustring

definition is_header :: "ustring \<Rightarrow> bool" where
  "is_header cleaned_line =
     (contains (ustr ''CLSF.CONTABIL'') cleaned_line \<and> contains (ustr ''DENOMINACAO / RUBRICA'') cleaned_line)"

definition is_structural :: "ustring \<Rightarrow> bool" where
  "is_structural cleaned_line =
     (cleaned_line = [] \<or> contains (ustr ''---'') cleaned_line \<or> startswith cleaned_line (ustr ''***'') \<or>
      contains (ustr ''SIAPE, GERENCIAL'') cleaned_line \<or> startswith cleaned_line (ustr ''DATA:''))"

definition section_scanner :: "bool \<Rightarrow> ustring \<Rightarrow> scanned" where
  "section_scanner in_section line = (let cleaned_line = strip line in
     if is_header cleaned_line then SectionStart
     else if \<not> in_section \<or> is_structural cleaned_line then Discarded
     else Candidate cleaned_line)"

text \<open>
  The amount parser is the conversion applied to the text of group 3,
  \<^verbatim>\<open>float(valor_str.replace('.', '').replace(',', '.'))\<close>.
\<close>

definition amount_parser :: "ustring \<Rightarrow> error + pyfloat" where
  "amount_parser valor_str = py_float (replace (replace valor_str DOT []) COMMA (ustr ''.''))"

text \<open>
  The rest of the loop body, for a line that reached the pattern: the rows and the
  messages it appends.
\<close>

definition record_extractor :: "nat \<Rightarrow> ustring \<Rightarrow> row list \<times> ustring list" where
  "record_extractor n cleaned_line =
     (case re_match data_pattern cleaned_line of
        None \<Rightarrow> ([], [])
      | Some m \<Rightarrow>
          (let classificacao = m 1; denominacao = strip (m 2); valor_str = m 3 in
           case amount_parser valor_str of
             Inr valor_float \<Rightarrow> ([(classificacao, denominacao, valor_float)], [])
           | Inl ValueError \<Rightarrow> ([], [msg_invalid_amount n valor_str cleaned_line])))"

definition process_line :: "state \<Rightarrow> ustring \<Rightarrow> state" where
  "process_line st line = (let n = line_number st + 1 in
     case section_scanner (in_data_section st) line of
       SectionStart \<Rightarrow>
         st\<lparr>in_data_section := True,
            info_messages := info_messages st @ [msg_section_started n],
            line_number := n\<rparr>
     | Discarded \<Rightarrow> st\<lparr>line_number := n\<rparr>
     | Candidate cleaned_line \<Rightarrow>
         (let (rows, msgs) = record_extractor n cleaned_line in
          st\<lparr>extracted_data := extracted_data st @ rows,
             info_messages := info_messages st @ msgs,
             line_number := n\<rparr>))"

definition process_lines :: "state \<Rightarrow> ustring list \<Rightarrow> state" where
  "process_lines st lines = foldl process_line st lines"

definition initial_state :: "ustring list \<Rightarrow> state" where
  "initial_state msgs =
     \<lparr>extracted_data = [], in_data_section = False,
      info_messages = msgs @ [ustr ''--- Processando linhas do texto extra'' @ [0xED] @ ustr ''do ---''],
      line_number = 0\<rparr>"

text \<open>The lines that reach the pattern in a run over \<open>lines\<close>, in order.\<close>

fun candidates :: "state \<Rightarrow> ustring list \<Rightarrow> ustring list" where
  "candidates st [] = []"
| "candidates st (line # lines) =
     (case section_scanner (in_data_section st) line of
        Candidate cleaned_line \<Rightarrow> [cleaned_line]
      | _ \<Rightarrow> []) @ candidates (process_line st line) lines"

subsection \<open>From the lines to the result\<close>

text \<open>
  The function answers with a flag, the bytes of the workbook or the error message, and
  the log. pandas and openpyxl are outside the repository: building the DataFrame and
  writing the workbook are the parameters \<open>dataframe\<close> and \<open>to_excel\<close>, which either
  raise (\<open>Inl\<close> the text of the exception) or return.
\<close>

type_synonym 'x result = "bool \<times> (ustring + 'x) \<times> ustring list"

definition msg_no_data :: ustring where
  "msg_no_data = ustr ''Aten'' @ [0xE7, 0xE3] @ ustr ''o: Nenhum dado no formato esperado foi extra'' @
     [0xED] @ ustr ''do ap'' @ [0xF3] @ ustr ''s processar o texto do PDF.''"

definition msg_concluded :: "nat \<Rightarrow> ustring" where
  "msg_concluded n = ustr ''--- Processamento de texto conclu'' @ [0xED] @ ustr ''do. '' @ str_nat n @
     (ustr '' linhas de dados encontradas. ---'')"

definition msg_dataframe_error :: "ustring \<Rightarrow> ustring" where
  "msg_dataframe_error e =
     ustr ''Erro durante a cria'' @ [0xE7, 0xE3] @ ustr ''o do DataFrame: '' @ e"

definition msg_excel_error :: "ustring \<Rightarrow> ustring" where
  "msg_excel_error e = [NEWLINE] @ ustr ''Erro ao gerar o arquivo Excel: '' @ e"

definition export :: "(row list \<Rightarrow> ustring + 'df) \<Rightarrow> ('df \<Rightarrow> ustring + 'x) \<Rightarrow>
    row list \<Rightarrow> ustring list \<Rightarrow> 'x result" where
  "export dataframe to_excel rows msgs =
     (case dataframe rows of
        Inl e \<Rightarrow> (False, Inl (msg_dataframe_error e), msgs @ [msg_dataframe_error e])
      | Inr df \<Rightarrow>
          (let msgs' = msgs @ [ustr ''--- DataFrame criado com os dados extra'' @ [0xED] @ ustr ''dos ---'',
                   ustr ''--- Gerando arquivo Excel em mem'' @ [0xF3] @ ustr ''ria ---''] in
           case to_excel df of
             Inl e \<Rightarrow> (False, Inl (msg_excel_error e), msgs' @ [msg_excel_error e])
           | Inr excel_bytes \<Rightarrow>
               (True, Inr excel_bytes,
                msgs' @ [[NEWLINE] @ ustr ''Arquivo Excel gerado com sucesso!''])))"

definition process_text :: "(row list \<Rightarrow> ustring + 'df) \<Rightarrow> ('df \<Rightarrow> ustring + 'x) \<Rightarrow>
    ustring list \<Rightarrow> ustring list \<Rightarrow> 'x result" where
  "process_text dataframe to_excel extracted_text_lines msgs =
     (let st = process_lines (initial_state msgs) extracted_text_lines in
      if extracted_data st = []
      then (False, Inl msg_no_data, info_messages st @ [msg_no_data])
      else export dataframe to_excel (extracted_data st)
             (info_messages st @ [msg_concluded (length (extracted_data st))]))"

subsection \<open>From the document to the lines\<close>

text \<open>
  pdfplumber is outside the repository as well. A document either cannot be opened or
  has pages, and \<^verbatim>\<open>page.extract_text\<close> either raises or returns a text or \<^verbatim>\<open>None\<close>.
  \<open>extract_text\<close> is the first \<^verbatim>\<open>try\<close> block: the lines and the log so far, or the text of
  the exception and the log so far.
\<close>

datatype page = Text "ustring option" | Raises ustring

datatype pdf = Unreadable ustring | Pages "page list"

definition msg_extraction_error :: "ustring \<Rightarrow> ustring" where
  "msg_extraction_error e = ustr ''Erro ao abrir ou extrair texto do PDF: '' @ e @
     ustr ''. Verifique se o arquivo n'' @ [0xE3] @ ustr ''o est'' @ [0xE1] @
     (ustr '' corrompido ou protegido por senha.'')"

definition msg_empty_text :: ustring where
  "msg_empty_text = ustr ''Erro: Nenhum texto foi extra'' @ [0xED] @ ustr ''do do PDF.''"

fun extract_pages :: "nat \<Rightarrow> nat \<Rightarrow> page list \<Rightarrow> ustring list \<Rightarrow> ustring list \<Rightarrow>
    (ustring \<times> ustring list) + (ustring list \<times> ustring list)" where
  "extract_pages num_pages i [] extracted_text_lines msgs = Inr (extracted_text_lines, msgs)"
| "extract_pages num_pages i (p # ps) extracted_text_lines msgs =
     (let msgs' = msgs @ [ustr ''Processando p'' @ [0xE1] @ ustr ''gina '' @ str_nat (i + 1) @ ustr ''/'' @
                    str_nat num_pages @ ustr ''...''] in
      case p of
        Raises e \<Rightarrow> Inl (e, msgs')
      | Text t \<Rightarrow>
          (case t of
             Some text \<Rightarrow>
               if text \<noteq> []
               then extract_pages num_pages (i + 1) ps (extracted_text_lines @ split_nl text) msgs'
               else extract_pages num_pages (i + 1) ps extracted_text_lines
                      (msgs' @ [ustr ''Aviso: Nenhum texto extra'' @ [0xED] @ ustr ''do da p'' @
                         [0xE1] @ ustr ''gina '' @ str_nat (i + 1) @ ustr ''.''])
           | None \<Rightarrow>
               extract_pages num_pages (i + 1) ps extracted_text_lines
                 (msgs' @ [ustr ''Aviso: Nenhum texto extra'' @ [0xED] @ ustr ''do da p'' @
                    [0xE1] @ ustr ''gina '' @ str_nat (i + 1) @ ustr ''.''])))"

definition extract_text :: "pdf \<Rightarrow> (ustring \<times> ustring list) + (ustring list \<times> ustring list)" where
  "extract_text pdf_file_object =
     (let msgs = [ustr ''--- Iniciando processamento do PDF ---'',
                  (ustr ''--- Extraindo texto do PDF (pode levar um momento) ---'')] in
      case pdf_file_object of
        Unreadable e \<Rightarrow> Inl (e, msgs)
      | Pages ps \<Rightarrow>
          extract_pages (length ps) 0 ps []
            (msgs @ [ustr ''PDF cont'' @ [0xE9] @ ustr ''m '' @ str_nat (length ps) @ ustr '' p'' @
               [0xE1] @ ustr ''gina(s).'']))"

definition processar_pdf_para_streamlit :: "(row list \<Rightarrow> ustring + 'df) \<Rightarrow>
    ('df \<Rightarrow> ustring + 'x) \<Rightarrow> pdf \<Rightarrow> 'x result" where
  "processar_pdf_para_streamlit dataframe to_excel pdf_file_object =
     (case extract_text pdf_file_object of
        Inl (e, msgs) \<Rightarrow>
          (False, Inl (msg_extraction_error e), msgs @ [msg_extraction_error e])
      | Inr (extracted_text_lines, msgs) \<Rightarrow>
          if extracted_text_lines = []
          then (False, Inl msg_empty_text, msgs @ [msg_empty_text])
          else process_text dataframe to_excel extracted_text_lines msgs)"

section \<open>The specification's vocabulary\<close>

text \<open>
  The shape of an amount in the specification's words: 1 to 3 digits, then groups of a
  point and exactly 3 digits, then a comma and exactly 2 digits.
\<close>

fun amount_tail :: "ustring \<Rightarrow> bool" where
  "amount_tail [c, d1, d2] = (c = COMMA \<and> isdecimal d1 \<and> isdecimal d2)"
| "amount_tail (c # d1 # d2 # d3 # rest) =
     (c = DOT \<and> isdecimal d1 \<and> isdecimal d2 \<and> isdecimal d3 \<and> amount_tail rest)"
| "amount_tail [] = False"
| "amount_tail [c] = False"
| "amount_tail [c, d1] = False"

definition amount_shape :: "ustring \<Rightarrow> bool" where
  "amount_shape a = (\<exists>k \<in> {1, 2, 3}. k \<le> length a \<and> list_all isdecimal (take k a) \<and>
     amount_tail (drop k a))"

text \<open>
  The pattern in the specification's words: a classification token without whitespace,
  whitespace, a description of any characters, whitespace, and an amount that ends the
  line.
\<close>

definition matches_pattern :: "ustring \<Rightarrow> bool" where
  "matches_pattern l = (\<exists>c w1 d w2 a. l = c @ w1 @ d @ w2 @ a \<and>
     c \<noteq> [] \<and> list_all (\<lambda>x. \<not> isspace x) c \<and> w1 \<noteq> [] \<and> list_all isspace w1 \<and>
     w2 \<noteq> [] \<and> list_all isspace w2 \<and> amount_shape a)"

text \<open>
  Modelled from the spec: the source only parses amounts and has no function that writes
  one back. Writing a float back with the same locale rule is the value rounded to two
  decimals, the integer part in groups of three digits separated by points, a comma, two
  digits.
\<close>

fun group3 :: "ustring \<Rightarrow> ustring" where
  "group3 ds = (if length ds \<le> 3 then ds
     else group3 (take (length ds - 3) ds) @ ustr ''.'' @ drop (length ds - 3) ds)"

declare group3.simps [simp del]

definition cents :: "rat \<Rightarrow> nat" where
  "cents v = (let (a, b) = quotient_of (v * 100) in round_half_even (nat a) (nat b))"

definition format_digits :: "rat \<Rightarrow> ustring" where
  "format_digits v = (let c = cents v in
     group3 (str_nat (c div 100)) @ ustr '','' @ [digit_char (c mod 100 div 10), digit_char (c mod 10)])"

definition format_amount :: "pyfloat \<Rightarrow> ustring" where
  "format_amount x = (case x of
       Finite v \<Rightarrow> if 0 \<le> v then format_digits v else MINUS # format_digits (- v)
     | NegZero \<Rightarrow> MINUS # format_digits 0
     | PosInf \<Rightarrow> ustr ''inf''
     | NegInf \<Rightarrow> ustr ''-inf''
     | NaN \<Rightarrow> ustr ''nan'')"

text \<open>
  \<open>amount_cents a\<close> is the number of cents that the digits of an amount denote. An
  amount is written canonically when its digits are the ASCII digits and it has no
  superfluous leading zero: its first digit is not 0, unless its integer part is the
  single digit 0.
\<close>

definition amount_cents :: "ustring \<Rightarrow> nat" where
  "amount_cents a = digits_value (filter isdecimal a)"

definition canonical :: "ustring \<Rightarrow> bool" where
  "canonical a = (list_all (\<lambda>c. c < 128) a \<and> (take 1 a \<noteq> ustr ''0'' \<or> take 2 a = ustr ''0,''))"

section \<open>Positions in the subject\<close>

text \<open>
  Notions for reasoning about the matcher: \<open>sub s i j\<close> is the text between two
  positions, \<open>run s c i j\<close> says that it consists of characters of the class \<open>c\<close>,
  \<open>count_ok\<close> is the bound on the number of iterations of a repetition, and
  \<open>parts s i1 i2 i3 i4 j\<close> says that the positions cut \<open>s\<close> into a classification, blanks,
  a description, blanks and an amount that ends where \<^verbatim>\<open>$\<close> matches.
\<close>

definition run :: "ustring \<Rightarrow> cclass \<Rightarrow> nat \<Rightarrow> nat \<Rightarrow> bool" where
  "run s c i j = (i \<le> j \<and> (\<forall>k. i \<le> k \<and> k < j \<longrightarrow> k < length s \<and> holds c (s ! k)))"

definition count_ok :: "nat \<Rightarrow> nat \<Rightarrow> nat option \<Rightarrow> bool" where
  "count_ok n lo hi = (lo \<le> n \<and> (case hi of None \<Rightarrow> True | Some h \<Rightarrow> n \<le> h))"

definition sub :: "ustring \<Rightarrow> nat \<Rightarrow> nat \<Rightarrow> ustring" where
  "sub s i j = take (j - i) (drop i s)"

definition dot_group :: regex where
  "dot_group = Cat (Atom (Lit DOT)) (Repeat (Atom Digit) 3 (Some 3) True)"

definition comma_part :: regex where
  "comma_part = Cat (Atom (Lit COMMA)) (Repeat (Atom Digit) 2 (Some 2) True)"

definition tail_re :: regex where
  "tail_re = Cat (Repeat dot_group 0 None True) comma_part"

definition parts :: "ustring \<Rightarrow> nat \<Rightarrow> nat \<Rightarrow> nat \<Rightarrow> nat \<Rightarrow> nat \<Rightarrow> bool" where
  "parts s i1 i2 i3 i4 j =
     (0 < i1 \<and> run s NonSpace 0 i1 \<and> i1 < i2 \<and> run s Space i1 i2 \<and> run s AnyChar i2 i3 \<and>
      i3 < i4 \<and> run s Space i3 i4 \<and> i4 \<le> j \<and> j \<le> length s \<and> amount_shape (sub s i4 j) \<and>
      (j = length s \<or> (Suc j = length s \<and> s ! j = NEWLINE)))"

text \<open>
  \<open>normalise\<close> is the text handed to \<^verbatim>\<open>float\<close>, \<open>trailing_token\<close> the last token of a
  line, and \<open>nonneg x\<close> is the comparison \<^verbatim>\<open>x >= 0\<close> of floats.
\<close>

definition nonneg :: "pyfloat \<Rightarrow> bool" where
  "nonneg x = (case x of
       Finite v \<Rightarrow> 0 \<le> v
     | PosInf \<Rightarrow> True
     | NegInf \<Rightarrow> False
     | NegZero \<Rightarrow> True
     | NaN \<Rightarrow> False)"

definition trailing_token :: "ustring \<Rightarrow> ustring" where
  "trailing_token s = rev (takeWhile (\<lambda>x. \<not> isspace x) (rev s))"

text \<open>\<open>asc c\<close> is what the conversion to ASCII makes of a digit \<open>c\<close>.\<close>

definition asc :: "uchar \<Rightarrow> uchar" where
  "asc c = (if c < 127 then c else 0x30 + digit_of c)"

definition normalise :: "ustring \<Rightarrow> ustring" where
  "normalise valor_str = replace (replace valor_str DOT []) COMMA (ustr ''.'')"

section \<open>The character classes\<close>

lemma decimal_ascii:
  "c < 128 \<Longrightarrow> decimal c = (if 48 \<le> c \<and> c \<le> 57 then Some (c - 48) else None)"
  by (simp add: decimal_def digit_zeros_def)

lemma isdecimal_ascii: "c < 128 \<Longrightarrow> isdecimal c \<longleftrightarrow> 48 \<le> c \<and> c \<le> 57"
  by (simp add: isdecimal_def decimal_ascii)

lemma digit_of_ascii: "c < 128 \<Longrightarrow> digit_of c = (if 48 \<le> c \<and> c \<le> 57 then c - 48 else 0)"
  by (simp add: digit_of_def decimal_ascii)

lemma find_SomeD: "find P xs = Some x \<Longrightarrow> x \<in> set xs \<and> P x"
  by (induction xs) (auto split: if_splits)

lemma decimal_SomeD:
  "decimal c = Some d \<Longrightarrow> \<exists>z \<in> set digit_zeros. z \<le> c \<and> c < z + 10 \<and> d = c - z"
  unfolding decimal_def by (auto dest: find_SomeD)

lemma isdecimal_zero: "isdecimal c \<Longrightarrow> \<exists>z \<in> set digit_zeros. z \<le> c \<and> c < z + 10"
  unfolding isdecimal_def using decimal_SomeD [of c] by auto

lemma digit_zeros_low: "z \<in> set digit_zeros \<Longrightarrow> z = 48 \<or> 1632 \<le> z"
  by (auto simp: digit_zeros_def)

lemma digit_zeros_space:
  "z \<in> set digit_zeros \<Longrightarrow> z \<le> c \<Longrightarrow> c < z + 10 \<Longrightarrow> \<not> isspace c"
  unfolding digit_zeros_def isspace_def by auto

lemma isdecimal_not_sep: "isdecimal x \<Longrightarrow> x \<noteq> DOT \<and> x \<noteq> COMMA \<and> \<not> isspace x \<and> x \<noteq> MINUS"
proof -
  assume "isdecimal x"
  from isdecimal_zero [OF this] obtain z where
    z: "z \<in> set digit_zeros" "z \<le> x" "x < z + 10" by blast
  have "\<not> isspace x" using z by (rule digit_zeros_space)
  moreover have "48 \<le> x" using digit_zeros_low [OF z(1)] z(2) by auto
  ultimately show ?thesis by simp
qed

lemma digit_of_less: "isdecimal c \<Longrightarrow> digit_of c < 10"
proof -
  assume "isdecimal c"
  then obtain d where d: "decimal c = Some d" by (auto simp: isdecimal_def)
  from decimal_SomeD [OF d] have "d < 10" by auto
  then show ?thesis by (simp add: digit_of_def d)
qed

section \<open>What the matcher accepts\<close>

lemma ms_repeat_atom_unfold:
  "set (ms s (Repeat (Atom c) lo hi g) (i, cp)) =
     (if lo = 0 then {(i, cp)} else {}) \<union>
     (if hi \<noteq> Some 0 \<and> i < length s \<and> holds c (s ! i)
      then set (ms s (Repeat (Atom c) (lo - 1) (map_option (\<lambda>h. h - 1) hi) g) (Suc i, cp))
      else {})"
  by (subst ms.simps) (auto simp: Let_def ms.simps(1))

lemma run_refl: "run s c i i"
  by (auto simp: run_def)

lemma run_Suc: "run s c i j \<Longrightarrow> i < j \<Longrightarrow> i < length s \<and> holds c (s ! i) \<and> run s c (Suc i) j"
  by (auto simp: run_def)

lemma run_Suc_intro: "i < length s \<Longrightarrow> holds c (s ! i) \<Longrightarrow> run s c (Suc i) j \<Longrightarrow> run s c i j"
  unfolding run_def
proof (intro conjI allI impI)
  assume a: "i < length s" "holds c (s ! i)"
    "Suc i \<le> j \<and> (\<forall>k. Suc i \<le> k \<and> k < j \<longrightarrow> k < length s \<and> holds c (s ! k))"
  show "i \<le> j" using a by simp
  fix k assume k: "i \<le> k \<and> k < j"
  show "k < length s" using a k by (cases "k = i") auto
  show "holds c (s ! k)" using a k by (cases "k = i") auto
qed

lemma run_less: "run s c (Suc i) j \<Longrightarrow> i < j"
  by (simp add: run_def)

lemma count_ok_step:
  "i < j \<Longrightarrow> count_ok (j - i) lo hi \<longleftrightarrow>
     hi \<noteq> Some 0 \<and> count_ok (j - Suc i) (lo - 1) (map_option (\<lambda>h. h - 1) hi)"
  by (cases hi) (auto simp: count_ok_def)

lemma count_ok_0: "count_ok 0 lo hi \<longleftrightarrow> lo = 0"
  by (cases hi) (auto simp: count_ok_def)

lemma ms_repeat_atom:
  "(j, cp') \<in> set (ms s (Repeat (Atom c) lo hi g) (i, cp)) \<longleftrightarrow>
     cp' = cp \<and> run s c i j \<and> count_ok (j - i) lo hi"
proof (induction "length s - i" arbitrary: i lo hi)
  case 0
  then have n: "\<not> i < length s" by simp
  have "run s c i j \<longleftrightarrow> j = i"
    using n run_Suc [of s c i j] run_refl [of s c i] by (auto simp: run_def)
  then show ?case
    using n by (subst ms_repeat_atom_unfold) (auto simp: count_ok_0)
next
  case (Suc n)
  then have n: "n = length s - Suc i" by simp
  let ?rest = "set (ms s (Repeat (Atom c) (lo - 1) (map_option (\<lambda>h. h - 1) hi) g) (Suc i, cp))"
  have ih: "(j, cp') \<in> ?rest \<longleftrightarrow>
     cp' = cp \<and> run s c (Suc i) j \<and> count_ok (j - Suc i) (lo - 1) (map_option (\<lambda>h. h - 1) hi)"
    using Suc.hyps(1) [OF n] .
  show ?case
  proof (cases "j = i")
    case True
    have "(i, cp') \<notin> ?rest"
      using Suc.hyps(1) [OF n, of "lo - 1" "map_option (\<lambda>h. h - 1) hi"] run_less [of s c i i]
      by (metis True ih less_irrefl)
    then show ?thesis
      using True by (subst ms_repeat_atom_unfold) (auto simp: count_ok_0 run_refl)
  next
    case False
    show ?thesis
    proof
      assume "(j, cp') \<in> set (ms s (Repeat (Atom c) lo hi g) (i, cp))"
      then have a: "hi \<noteq> Some 0" "i < length s" "holds c (s ! i)" "(j, cp') \<in> ?rest"
        using False by (subst (asm) ms_repeat_atom_unfold, auto split: if_splits)+
      then have b: "cp' = cp" "run s c (Suc i) j"
        "count_ok (j - Suc i) (lo - 1) (map_option (\<lambda>h. h - 1) hi)"
        using ih by simp_all
      have "i < j" using b(2) by (rule run_less)
      then show "cp' = cp \<and> run s c i j \<and> count_ok (j - i) lo hi"
        using a b run_Suc_intro [of i s c j] count_ok_step [of i j lo hi] by simp
    next
      assume r: "cp' = cp \<and> run s c i j \<and> count_ok (j - i) lo hi"
      then have "i < j" using False by (simp add: run_def)
      then have "i < length s \<and> holds c (s ! i) \<and> run s c (Suc i) j"
        "hi \<noteq> Some 0 \<and> count_ok (j - Suc i) (lo - 1) (map_option (\<lambda>h. h - 1) hi)"
        using r run_Suc [of s c i j] count_ok_step [of i j lo hi] by simp_all
      then show "(j, cp') \<in> set (ms s (Repeat (Atom c) lo hi g) (i, cp))"
        using r ih by (subst ms_repeat_atom_unfold) simp
    qed
  qed
qed

lemma length_sub: "j \<le> length s \<Longrightarrow> length (sub s i j) = j - i"
  by (auto simp: sub_def)

lemma sub_nth: "j \<le> length s \<Longrightarrow> k < j - i \<Longrightarrow> sub s i j ! k = s ! (i + k)"
  by (simp add: sub_def)

lemma sub_same: "sub s i i = []"
  by (simp add: sub_def)

lemma sub_split: "i \<le> k \<Longrightarrow> k \<le> j \<Longrightarrow> j \<le> length s \<Longrightarrow> sub s i j = sub s i k @ sub s k j"
proof -
  assume a: "i \<le> k" "k \<le> j" "j \<le> length s"
  have "take (j - i) (drop i s) = take (k - i) (drop i s) @ take (j - i - (k - i)) (drop (k - i) (drop i s))"
    using a by (metis add_diff_cancel_left' diff_le_mono le_add_diff_inverse take_add)
  then show ?thesis
    using a by (simp add: sub_def)
qed

lemma sub_Cons: "i < j \<Longrightarrow> j \<le> length s \<Longrightarrow> sub s i j = s ! i # sub s (Suc i) j"
proof -
  assume a: "i < j" "j \<le> length s"
  then have "drop i s = s ! i # drop (Suc i) s"
    by (simp add: Cons_nth_drop_Suc)
  moreover have "j - i = Suc (j - Suc i)" using a by simp
  ultimately show ?thesis by (simp add: sub_def)
qed

lemma sub_all: "sub s 0 (length s) = s"
  by (simp add: sub_def)

lemma run_sub:
  "j \<le> length s \<Longrightarrow> run s c i j \<longleftrightarrow> i \<le> j \<and> list_all (holds c) (sub s i j)"
proof (induction "j - i" arbitrary: i)
  case 0
  then show ?case by (auto simp: run_def sub_def)
next
  case (Suc n)
  then have ij: "i < j" and n: "n = j - Suc i" by simp_all
  have ih: "run s c (Suc i) j \<longleftrightarrow> Suc i \<le> j \<and> list_all (holds c) (sub s (Suc i) j)"
    using Suc.hyps(1) [OF n Suc.prems] .
  have "run s c i j \<longleftrightarrow> holds c (s ! i) \<and> run s c (Suc i) j"
    using run_Suc [of s c i j] run_Suc_intro [of i s c j] ij Suc.prems by auto
  then show ?case
    using ih ij sub_Cons [OF ij Suc.prems] by simp
qed

lemma ms_atom:
  "(j, cp') \<in> set (ms s (Atom c) (i, cp)) \<longleftrightarrow> cp' = cp \<and> j = Suc i \<and> i < length s \<and> holds c (s ! i)"
  by (auto simp: ms.simps)

lemma ms_cat:
  "y \<in> set (ms s (Cat a b) x) \<longleftrightarrow>
     (\<exists>k cp''. (k, cp'') \<in> set (ms s a x) \<and> y \<in> set (ms s b (k, cp'')))"
  by (auto simp: ms.simps)

lemma ms_group:
  "(j, cp') \<in> set (ms s (Group n r) (i, cp)) \<longleftrightarrow>
     (\<exists>cp''. (j, cp'') \<in> set (ms s r (i, cp)) \<and> cp' = cp''(n \<mapsto> (i, j)))"
  by (auto simp: ms.simps)

lemma ms_bol: "(j, cp') \<in> set (ms s Bol (i, cp)) \<longleftrightarrow> cp' = cp \<and> j = i \<and> i = 0"
  by (auto simp: ms.simps)

lemma ms_eol:
  "(j, cp') \<in> set (ms s Eol (i, cp)) \<longleftrightarrow>
     cp' = cp \<and> j = i \<and> (i = length s \<or> (Suc i = length s \<and> s ! i = NEWLINE))"
  by (auto simp: ms.simps)

lemma ms_digits_exact:
  "(j, cp') \<in> set (ms s (Repeat (Atom Digit) n (Some n) g) (i, cp)) \<longleftrightarrow>
     cp' = cp \<and> j = i + n \<and> run s Digit i j"
  by (auto simp: ms_repeat_atom count_ok_def run_def)

lemma run_le: "run s c i j \<Longrightarrow> i < j \<Longrightarrow> j \<le> length s"
  unfolding run_def
  by (metis Suc_leI Suc_pred diff_le_self le_less_trans less_Suc_eq_le less_imp_diff_less not_less_eq_eq zero_less_diff linorder_not_less order_less_le_trans)

lemma run_iff: "i < j \<Longrightarrow> run s c i j \<longleftrightarrow> j \<le> length s \<and> list_all (holds c) (sub s i j)"
  using run_le [of s c i j] run_sub [of j s c i] by auto

lemma holds_Digit: "holds Digit = isdecimal"
  by (rule ext) simp

lemma ms_dot_group:
  "(j, cp') \<in> set (ms s dot_group (i, cp)) \<longleftrightarrow>
     cp' = cp \<and> j = i + 4 \<and> j \<le> length s \<and> s ! i = DOT \<and>
     list_all isdecimal (sub s (Suc i) j)"
proof -
  have A: "(j, cp') \<in> set (ms s dot_group (i, cp)) \<longleftrightarrow>
     cp' = cp \<and> i < length s \<and> s ! i = DOT \<and> j = i + 4 \<and> run s Digit (Suc i) j"
    by (auto simp: dot_group_def ms_cat ms_atom ms_digits_exact)
  show ?thesis
  proof (cases "j = i + 4")
    case False
    then show ?thesis using A by simp
  next
    case True
    then have "Suc i < j" by simp
    from run_iff [OF this, of s Digit] have
      "run s Digit (Suc i) j \<longleftrightarrow> j \<le> length s \<and> list_all isdecimal (sub s (Suc i) j)"
      by (simp add: holds_Digit)
    moreover have "j \<le> length s \<Longrightarrow> i < length s" using True by simp
    ultimately show ?thesis unfolding A by blast
  qed
qed

lemma ms_comma_part:
  "(j, cp') \<in> set (ms s comma_part (i, cp)) \<longleftrightarrow>
     cp' = cp \<and> j = i + 3 \<and> j \<le> length s \<and> s ! i = COMMA \<and>
     list_all isdecimal (sub s (Suc i) j)"
proof -
  have A: "(j, cp') \<in> set (ms s comma_part (i, cp)) \<longleftrightarrow>
     cp' = cp \<and> i < length s \<and> s ! i = COMMA \<and> j = i + 3 \<and> run s Digit (Suc i) j"
    by (auto simp: comma_part_def ms_cat ms_atom ms_digits_exact)
  show ?thesis
  proof (cases "j = i + 3")
    case False
    then show ?thesis using A by simp
  next
    case True
    then have "Suc i < j" by simp
    from run_iff [OF this, of s Digit] have
      "run s Digit (Suc i) j \<longleftrightarrow> j \<le> length s \<and> list_all isdecimal (sub s (Suc i) j)"
      by (simp add: holds_Digit)
    moreover have "j \<le> length s \<Longrightarrow> i < length s" using True by simp
    ultimately show ?thesis unfolding A by blast
  qed
qed

lemma amount_re_split: "amount_re = Cat (Repeat (Atom Digit) 1 (Some 3) True) tail_re"
  by (simp add: amount_re_def tail_re_def dot_group_def comma_part_def)

lemma ms_star_cat:
  "y \<in> set (ms s (Cat (Repeat r 0 None True) q) (i, cp)) \<longleftrightarrow>
     (\<exists>k cp''. (k, cp'') \<in> set (ms s r (i, cp)) \<and> i < k \<and> k \<le> length s \<and>
        y \<in> set (ms s (Cat (Repeat r 0 None True) q) (k, cp''))) \<or>
     y \<in> set (ms s q (i, cp))"
  by (subst ms.simps(2), subst ms.simps(3)) (auto simp: Let_def ms.simps(2))

lemma amount_tail_iff:
  "amount_tail t \<longleftrightarrow>
     (\<exists>ds. t = COMMA # ds \<and> length ds = 2 \<and> list_all isdecimal ds) \<or>
     (\<exists>ds r. t = DOT # ds @ r \<and> length ds = 3 \<and> list_all isdecimal ds \<and> amount_tail r)"
proof (cases t rule: amount_tail.cases)
  case (1 c d1 d2)
  have "\<And>ds r. length ds = 3 \<Longrightarrow> [c, d1, d2] \<noteq> DOT # ds @ r"
    by (metis length_Cons length_append list.size(3) add_Suc_right numeral_3_eq_3 Suc_inject
        nat.simps(3) add_is_0 length_0_conv One_nat_def Suc_1 le_add1 not_less_eq_eq)
  then show ?thesis using 1 by (auto simp: length_Suc_conv numeral_2_eq_2)
next
  case (2 c d1 d2 d3 rest)
  have "\<And>ds. length ds = 2 \<Longrightarrow> c # d1 # d2 # d3 # rest \<noteq> COMMA # ds"
    by (auto simp: length_Suc_conv numeral_2_eq_2)
  moreover have "(\<exists>ds r. c # d1 # d2 # d3 # rest = DOT # ds @ r \<and> length ds = 3 \<and>
       list_all isdecimal ds \<and> amount_tail r) \<longleftrightarrow>
     c = DOT \<and> isdecimal d1 \<and> isdecimal d2 \<and> isdecimal d3 \<and> amount_tail rest"
  proof
    assume "\<exists>ds r. c # d1 # d2 # d3 # rest = DOT # ds @ r \<and> length ds = 3 \<and>
       list_all isdecimal ds \<and> amount_tail r"
    then show "c = DOT \<and> isdecimal d1 \<and> isdecimal d2 \<and> isdecimal d3 \<and> amount_tail rest"
      by (auto simp: length_Suc_conv numeral_3_eq_3)
  next
    assume a: "c = DOT \<and> isdecimal d1 \<and> isdecimal d2 \<and> isdecimal d3 \<and> amount_tail rest"
    then have "c # d1 # d2 # d3 # rest = DOT # [d1, d2, d3] @ rest \<and> length [d1, d2, d3] = 3 \<and>
       list_all isdecimal [d1, d2, d3] \<and> amount_tail rest"
      by simp
    then show "\<exists>ds r. c # d1 # d2 # d3 # rest = DOT # ds @ r \<and> length ds = 3 \<and>
       list_all isdecimal ds \<and> amount_tail r"
      by blast
  qed
  ultimately show ?thesis using 2 by auto
next
  case 3
  then show ?thesis by simp
next
  case (4 c)
  then show ?thesis by (auto simp: length_Suc_conv numeral_2_eq_2 numeral_3_eq_3)
next
  case (5 c d1)
  then show ?thesis by (auto simp: length_Suc_conv numeral_2_eq_2 numeral_3_eq_3)
qed

lemma sub_eq_Cons:
  "j \<le> length s \<Longrightarrow> sub s i j = x # xs \<Longrightarrow> i < j \<and> s ! i = x \<and> sub s (Suc i) j = xs"
proof -
  assume a: "j \<le> length s" "sub s i j = x # xs"
  have "i < j"
  proof (rule ccontr)
    assume "\<not> i < j"
    then have "sub s i j = []" by (simp add: sub_def)
    then show False using a by simp
  qed
  then show ?thesis using sub_Cons [of i j s] a by simp
qed

lemma sub_eq_append:
  "j \<le> length s \<Longrightarrow> i \<le> j \<Longrightarrow> sub s i j = xs @ ys \<Longrightarrow>
     i + length xs \<le> j \<and> sub s i (i + length xs) = xs \<and> sub s (i + length xs) j = ys"
proof -
  assume a: "j \<le> length s" "i \<le> j" "sub s i j = xs @ ys"
  have "length (xs @ ys) = j - i" using a length_sub [of j s i] by simp
  then have l: "i + length xs \<le> j" using a by simp
  have "sub s i j = sub s i (i + length xs) @ sub s (i + length xs) j"
    using sub_split [of i "i + length xs" j s] l a by simp
  moreover have "length (sub s i (i + length xs)) = length xs"
    using l a by (simp add: length_sub)
  ultimately show ?thesis using a l by simp
qed

lemma ms_tail_unfold:
  "(j, cp') \<in> set (ms s tail_re (i, cp)) \<longleftrightarrow>
     (i + 4 \<le> length s \<and> s ! i = DOT \<and> list_all isdecimal (sub s (Suc i) (i + 4)) \<and>
        (j, cp') \<in> set (ms s tail_re (i + 4, cp))) \<or>
     (cp' = cp \<and> j = i + 3 \<and> j \<le> length s \<and> s ! i = COMMA \<and>
        list_all isdecimal (sub s (Suc i) j))"
proof -
  have "(j, cp') \<in> set (ms s tail_re (i, cp)) \<longleftrightarrow>
     (\<exists>k cp''. (k, cp'') \<in> set (ms s dot_group (i, cp)) \<and> i < k \<and> k \<le> length s \<and>
        (j, cp') \<in> set (ms s tail_re (k, cp''))) \<or>
     (j, cp') \<in> set (ms s comma_part (i, cp))"
    unfolding tail_re_def by (rule ms_star_cat)
  also have "(\<exists>k cp''. (k, cp'') \<in> set (ms s dot_group (i, cp)) \<and> i < k \<and> k \<le> length s \<and>
        (j, cp') \<in> set (ms s tail_re (k, cp''))) \<longleftrightarrow>
      (i + 4 \<le> length s \<and> s ! i = DOT \<and> list_all isdecimal (sub s (Suc i) (i + 4)) \<and>
        (j, cp') \<in> set (ms s tail_re (i + 4, cp)))"
    unfolding ms_dot_group by auto
  finally show ?thesis
    unfolding ms_comma_part .
qed

lemma amount_tail_dot:
  "length ds = 3 \<Longrightarrow> list_all isdecimal ds \<Longrightarrow> amount_tail r \<Longrightarrow> amount_tail (DOT # ds @ r)"
  by (subst amount_tail_iff) blast

lemma amount_tail_comma:
  "length ds = 2 \<Longrightarrow> list_all isdecimal ds \<Longrightarrow> amount_tail (COMMA # ds)"
  by (subst amount_tail_iff) blast

lemma ms_tail_D:
  "(j, cp') \<in> set (ms s tail_re (i, cp)) \<Longrightarrow>
     cp' = cp \<and> i \<le> j \<and> j \<le> length s \<and> amount_tail (sub s i j)"
proof (induction "length s - i" arbitrary: i rule: less_induct)
  case less
  note unfold = ms_tail_unfold [of j cp' s i cp]
  from less.prems unfold consider
      (dot) "i + 4 \<le> length s" "s ! i = DOT" "list_all isdecimal (sub s (Suc i) (i + 4))"
        "(j, cp') \<in> set (ms s tail_re (i + 4, cp))"
      | (comma) "cp' = cp" "j = i + 3" "j \<le> length s" "s ! i = COMMA"
        "list_all isdecimal (sub s (Suc i) j)"
    by blast
  then show ?case
  proof cases
    case dot
    have "length s - (i + 4) < length s - i" using dot(1) by simp
    from less.hyps [OF this dot(4)]
    have r: "cp' = cp" "i + 4 \<le> j" "j \<le> length s" "amount_tail (sub s (i + 4) j)"
      by simp_all
    have "i < j" using r(2) by simp
    from sub_Cons [OF this r(3)] have 1: "sub s i j = DOT # sub s (Suc i) j"
      using dot(2) by simp
    have 2: "sub s (Suc i) j = sub s (Suc i) (i + 4) @ sub s (i + 4) j"
      by (rule sub_split) (use r in simp_all)
    have 3: "length (sub s (Suc i) (i + 4)) = 3"
      using length_sub [of "i + 4" s "Suc i"] dot(1) by simp
    have "amount_tail (sub s i j)"
      unfolding 1 2 using 3 dot(3) r(4) by (rule amount_tail_dot)
    then show ?thesis using r by simp
  next
    case comma
    have "i < j" using comma(2) by simp
    from sub_Cons [OF this comma(3)] have 1: "sub s i j = COMMA # sub s (Suc i) j"
      using comma(4) by simp
    have 3: "length (sub s (Suc i) j) = 2"
      using length_sub [of j s "Suc i"] comma(2,3) by simp
    have "amount_tail (sub s i j)"
      unfolding 1 using 3 comma(5) by (rule amount_tail_comma)
    then show ?thesis using comma by simp
  qed
qed

lemma ms_tail_I:
  "i \<le> j \<Longrightarrow> j \<le> length s \<Longrightarrow> amount_tail (sub s i j) \<Longrightarrow>
     (j, cp) \<in> set (ms s tail_re (i, cp))"
proof (induction "length s - i" arbitrary: i rule: less_induct)
  case less
  note unfold = ms_tail_unfold [of j cp s i cp]
  note jl = less.prems(2)
  from less.prems(3) consider
      (comma) ds where "sub s i j = COMMA # ds" "length ds = 2" "list_all isdecimal ds"
      | (dot) ds r where "sub s i j = DOT # ds @ r" "length ds = 3" "list_all isdecimal ds"
          "amount_tail r"
    by (subst (asm) amount_tail_iff) blast
  then show ?case
  proof cases
    case comma
    from sub_eq_Cons [OF jl comma(1)]
    have c: "i < j" "s ! i = COMMA" "sub s (Suc i) j = ds" by simp_all
    have "length (sub s (Suc i) j) = j - Suc i" using jl by (rule length_sub)
    then have "j = i + 3" using c comma(2) by simp
    then show ?thesis unfolding unfold using c comma(3) jl by simp
  next
    case dot
    from sub_eq_Cons [OF jl dot(1)]
    have c: "i < j" "s ! i = DOT" "sub s (Suc i) j = ds @ r" by simp_all
    have "Suc i \<le> j" using c(1) by simp
    have e4: "Suc i + length ds = i + 4" using dot(2) by simp
    from sub_eq_append [OF jl \<open>Suc i \<le> j\<close> c(3)]
    have d: "i + 4 \<le> j" "sub s (Suc i) (i + 4) = ds" "sub s (i + 4) j = r"
      unfolding e4 by blast+
    have "length s - (i + 4) < length s - i" using d(1) jl by simp
    from less.hyps [OF this d(1) jl] d(3) dot(4)
    have "(j, cp) \<in> set (ms s tail_re (i + 4, cp))" by simp
    then show ?thesis unfolding unfold using c(2) d dot(3) jl by simp
  qed
qed

lemma ms_tail:
  "(j, cp') \<in> set (ms s tail_re (i, cp)) \<longleftrightarrow>
     cp' = cp \<and> i \<le> j \<and> j \<le> length s \<and> amount_tail (sub s i j)"
  using ms_tail_D [of j cp' s i cp] ms_tail_I [of i j s cp] by blast

lemma ms_amount_D:
  assumes "(j, cp') \<in> set (ms s amount_re (i, cp))"
  shows "cp' = cp \<and> i \<le> j \<and> j \<le> length s \<and> amount_shape (sub s i j)"
proof -
  from assms obtain k cp'' where
      m1: "(k, cp'') \<in> set (ms s (Repeat (Atom Digit) 1 (Some 3) True) (i, cp))" and
      m2: "(j, cp') \<in> set (ms s tail_re (k, cp''))"
    unfolding amount_re_split by (subst (asm) ms_cat) blast
  from m1 have k1: "cp'' = cp" "run s Digit i k" "count_ok (k - i) 1 (Some 3)"
    by (simp_all add: ms_repeat_atom)
  from m2 have k2: "cp' = cp''" "k \<le> j" "j \<le> length s" "amount_tail (sub s k j)"
    by (simp_all add: ms_tail)
  have ik: "i < k" "k - i \<in> {1, 2, 3}" "k \<le> length s"
    using k1(3) k2(2,3) by (auto simp: count_ok_def)
  have d: "list_all isdecimal (sub s i k)"
    using run_iff [OF ik(1), of s Digit] k1(2) by (simp add: holds_Digit)
  have "i \<le> k" using ik(1) by simp
  from sub_split [OF this k2(2,3)] have sp: "sub s i j = sub s i k @ sub s k j" .
  have l: "length (sub s i k) = k - i" using ik(3) by (rule length_sub)
  have "k - i \<le> length (sub s i j)" unfolding sp using l by simp
  moreover have "take (k - i) (sub s i j) = sub s i k" unfolding sp using l by simp
  moreover have "drop (k - i) (sub s i j) = sub s k j" unfolding sp using l by simp
  ultimately have "amount_shape (sub s i j)"
    unfolding amount_shape_def using ik(2) d k2(4) by metis
  then show ?thesis
    using k1(1) k2(1,2,3) ik(1) by simp
qed

lemma ms_amount_I:
  assumes "i \<le> j" "j \<le> length s" "amount_shape (sub s i j)"
  shows "(j, cp) \<in> set (ms s amount_re (i, cp))"
proof -
  from assms(3) obtain n where n: "n \<in> {1, 2, 3}" "n \<le> length (sub s i j)"
      "list_all isdecimal (take n (sub s i j))" "amount_tail (drop n (sub s i j))"
    unfolding amount_shape_def by blast
  have lj: "length (sub s i j) = j - i" using assms(2) by (rule length_sub)
  have "sub s i j = take n (sub s i j) @ drop n (sub s i j)" by simp
  from sub_eq_append [OF assms(2,1) this] n(2) lj
  have e: "i + n \<le> j" "sub s i (i + n) = take n (sub s i j)" "sub s (i + n) j = drop n (sub s i j)"
    by simp_all
  have "i < i + n" using n(1) by auto
  from run_iff [OF this, of s Digit] have "run s Digit i (i + n)"
    using e n(3) assms(2) by (simp add: holds_Digit)
  moreover have "count_ok (i + n - i) 1 (Some 3)"
    using n(1) by (auto simp: count_ok_def)
  ultimately have 1: "(i + n, cp) \<in> set (ms s (Repeat (Atom Digit) 1 (Some 3) True) (i, cp))"
    by (simp add: ms_repeat_atom)
  have 2: "(j, cp) \<in> set (ms s tail_re (i + n, cp))"
    using e n(4) assms(2) by (simp add: ms_tail)
  show ?thesis
    unfolding amount_re_split by (subst ms_cat) (use 1 2 in blast)
qed

lemma ms_amount:
  "(j, cp') \<in> set (ms s amount_re (i, cp)) \<longleftrightarrow>
     cp' = cp \<and> i \<le> j \<and> j \<le> length s \<and> amount_shape (sub s i j)"
  using ms_amount_D [of j cp' s i cp] ms_amount_I [of i j s cp] by blast

lemma count_ok_plus: "count_ok n 1 None \<longleftrightarrow> 0 < n" "count_ok n (Suc 0) None \<longleftrightarrow> 0 < n"
  by (auto simp: count_ok_def)

lemma count_ok_star: "count_ok n 0 None"
  by (simp add: count_ok_def)

lemma run_mono: "run s c i j \<Longrightarrow> i \<le> j"
  by (simp add: run_def)

lemma ms_data_pattern_D:
  assumes "(j, cp') \<in> set (ms s data_pattern (0, Map.empty))"
  shows "\<exists>i1 i2 i3 i4. parts s i1 i2 i3 i4 j \<and>
           cp' = [1 \<mapsto> (0, i1), 2 \<mapsto> (i2, i3), 3 \<mapsto> (i4, j)]"
proof -
  from assms obtain i1 c1 where
      a1: "(i1, c1) \<in> set (ms s (Group 1 (Repeat (Atom NonSpace) 1 None True)) (0, Map.empty))" and
      r1: "(j, cp') \<in> set (ms s (Cat (Repeat (Atom Space) 1 None True)
         (Cat (Group 2 (Repeat (Atom AnyChar) 0 None False))
           (Cat (Repeat (Atom Space) 1 None True) (Cat (Group 3 amount_re) Eol)))) (i1, c1))"
    unfolding data_pattern_def by (subst (asm) ms_cat, subst (asm) ms_cat) (auto simp: ms_bol)
  from a1 have b1: "c1 = [1 \<mapsto> (0, i1)]" "run s NonSpace 0 i1" "0 < i1"
    by (auto simp: ms_group ms_repeat_atom count_ok_plus)
  from r1 obtain i2 c2 where
      a2: "(i2, c2) \<in> set (ms s (Repeat (Atom Space) 1 None True) (i1, c1))" and
      r2: "(j, cp') \<in> set (ms s (Cat (Group 2 (Repeat (Atom AnyChar) 0 None False))
           (Cat (Repeat (Atom Space) 1 None True) (Cat (Group 3 amount_re) Eol))) (i2, c2))"
    by (subst (asm) ms_cat) blast
  from a2 have b2: "c2 = c1" "run s Space i1 i2" "i1 < i2"
    using run_mono [of s Space i1 i2] by (auto simp: ms_repeat_atom count_ok_plus)
  from r2 obtain i3 c3 where
      a3: "(i3, c3) \<in> set (ms s (Group 2 (Repeat (Atom AnyChar) 0 None False)) (i2, c2))" and
      r3: "(j, cp') \<in> set (ms s (Cat (Repeat (Atom Space) 1 None True)
           (Cat (Group 3 amount_re) Eol)) (i3, c3))"
    by (subst (asm) ms_cat) blast
  from a3 have b3: "c3 = c2(2 \<mapsto> (i2, i3))" "run s AnyChar i2 i3"
    by (auto simp: ms_group ms_repeat_atom)
  from r3 obtain i4 c4 where
      a4: "(i4, c4) \<in> set (ms s (Repeat (Atom Space) 1 None True) (i3, c3))" and
      r4: "(j, cp') \<in> set (ms s (Cat (Group 3 amount_re) Eol) (i4, c4))"
    by (subst (asm) ms_cat) blast
  from a4 have b4: "c4 = c3" "run s Space i3 i4" "i3 < i4"
    using run_mono [of s Space i3 i4] by (auto simp: ms_repeat_atom count_ok_plus)
  from r4 obtain i5 c5 where
      a5: "(i5, c5) \<in> set (ms s (Group 3 amount_re) (i4, c4))" and
      r5: "(j, cp') \<in> set (ms s Eol (i5, c5))"
    by (subst (asm) ms_cat) blast
  from r5 have b6: "cp' = c5" "j = i5" "j = length s \<or> (Suc j = length s \<and> s ! j = NEWLINE)"
    by (auto simp: ms_eol)
  from a5 have b5: "c5 = c4(3 \<mapsto> (i4, i5))" "i4 \<le> i5" "i5 \<le> length s" "amount_shape (sub s i4 i5)"
    by (auto simp: ms_group ms_amount)
  have "parts s i1 i2 i3 i4 j"
    unfolding parts_def using b1 b2 b3 b4 b5 b6 by simp
  moreover have "cp' = [1 \<mapsto> (0, i1), 2 \<mapsto> (i2, i3), 3 \<mapsto> (i4, j)]"
    using b1(1) b2(1) b3(1) b4(1) b5(1) b6(1,2) by simp
  ultimately show ?thesis by blast
qed

lemma ms_data_pattern_I:
  assumes "parts s i1 i2 i3 i4 j"
  shows "(j, [1 \<mapsto> (0, i1), 2 \<mapsto> (i2, i3), 3 \<mapsto> (i4, j)]) \<in> set (ms s data_pattern (0, Map.empty))"
proof -
  note p = assms [unfolded parts_def]
  let ?c1 = "[1 \<mapsto> (0 :: nat, i1)]"
  let ?c3 = "[1 \<mapsto> (0 :: nat, i1), 2 \<mapsto> (i2, i3)]"
  let ?c5 = "[1 \<mapsto> (0 :: nat, i1), 2 \<mapsto> (i2, i3), 3 \<mapsto> (i4, j)]"
  have 0: "(0, Map.empty) \<in> set (ms s Bol (0, Map.empty))"
    by (simp add: ms_bol)
  have 1: "(i1, ?c1) \<in> set (ms s (Group 1 (Repeat (Atom NonSpace) 1 None True)) (0, Map.empty))"
    using p by (simp add: ms_group ms_repeat_atom count_ok_plus)
  have 2: "(i2, ?c1) \<in> set (ms s (Repeat (Atom Space) 1 None True) (i1, ?c1))"
    using p by (simp add: ms_repeat_atom count_ok_plus)
  have 3: "(i3, ?c3) \<in> set (ms s (Group 2 (Repeat (Atom AnyChar) 0 None False)) (i2, ?c1))"
    using p by (simp add: ms_group ms_repeat_atom count_ok_star)
  have 4: "(i4, ?c3) \<in> set (ms s (Repeat (Atom Space) 1 None True) (i3, ?c3))"
    using p by (simp add: ms_repeat_atom count_ok_plus)
  have 5: "(j, ?c5) \<in> set (ms s (Group 3 amount_re) (i4, ?c3))"
    using p by (simp add: ms_group ms_amount)
  have 6: "(j, ?c5) \<in> set (ms s Eol (j, ?c5))"
    using p by (simp add: ms_eol)
  have "(j, ?c5) \<in> set (ms s (Cat (Group 3 amount_re) Eol) (i4, ?c3))"
    by (subst ms_cat) (use 5 6 in blast)
  then have "(j, ?c5) \<in> set (ms s (Cat (Repeat (Atom Space) 1 None True)
           (Cat (Group 3 amount_re) Eol)) (i3, ?c3))"
    by (subst ms_cat) (use 4 in blast)
  then have "(j, ?c5) \<in> set (ms s (Cat (Group 2 (Repeat (Atom AnyChar) 0 None False))
           (Cat (Repeat (Atom Space) 1 None True) (Cat (Group 3 amount_re) Eol))) (i2, ?c1))"
    by (subst ms_cat) (use 3 in blast)
  then have "(j, ?c5) \<in> set (ms s (Cat (Repeat (Atom Space) 1 None True)
         (Cat (Group 2 (Repeat (Atom AnyChar) 0 None False))
           (Cat (Repeat (Atom Space) 1 None True) (Cat (Group 3 amount_re) Eol)))) (i1, ?c1))"
    by (subst ms_cat) (use 2 in blast)
  then have "(j, ?c5) \<in> set (ms s (Cat (Group 1 (Repeat (Atom NonSpace) 1 None True))
       (Cat (Repeat (Atom Space) 1 None True)
         (Cat (Group 2 (Repeat (Atom AnyChar) 0 None False))
           (Cat (Repeat (Atom Space) 1 None True) (Cat (Group 3 amount_re) Eol))))) (0, Map.empty))"
    by (subst ms_cat) (use 1 in blast)
  then show ?thesis
    unfolding data_pattern_def by (subst ms_cat) (use 0 in blast)
qed

lemma re_match_Some:
  "re_match r s = Some m \<Longrightarrow> \<exists>j cp. (j, cp) \<in> set (ms s r (0, Map.empty)) \<and> m = group_text s cp"
  by (auto simp: re_match_def split: list.splits)

lemma re_match_None: "re_match r s = None \<longleftrightarrow> set (ms s r (0, Map.empty)) = {}"
  by (auto simp: re_match_def split: list.splits)

lemma match_sound:
  assumes "re_match data_pattern s = Some m"
  shows "\<exists>i1 i2 i3 i4 j. parts s i1 i2 i3 i4 j \<and>
     m 1 = sub s 0 i1 \<and> m 2 = sub s i2 i3 \<and> m 3 = sub s i4 j"
proof -
  from re_match_Some [OF assms] obtain j cp where
    a: "(j, cp) \<in> set (ms s data_pattern (0, Map.empty))" "m = group_text s cp" by blast
  from ms_data_pattern_D [OF a(1)] obtain i1 i2 i3 i4 where
    b: "parts s i1 i2 i3 i4 j" "cp = [1 \<mapsto> (0, i1), 2 \<mapsto> (i2, i3), 3 \<mapsto> (i4, j)]" by blast
  have "m 1 = sub s 0 i1 \<and> m 2 = sub s i2 i3 \<and> m 3 = sub s i4 j"
    unfolding a(2) b(2) by (simp add: group_text_def sub_def)
  then show ?thesis using b(1) by blast
qed

lemma match_complete:
  assumes "parts s i1 i2 i3 i4 j"
  shows "\<exists>m. re_match data_pattern s = Some m"
proof -
  have "set (ms s data_pattern (0, Map.empty)) \<noteq> {}"
    using ms_data_pattern_I [OF assms] by (metis empty_iff)
  then have "re_match data_pattern s \<noteq> None"
    by (simp add: re_match_None)
  then show ?thesis by blast
qed

section \<open>The section scanner\<close>

lemmas str_eval = strip_def isspace_def contains_def startswith_def sublist_code is_header_def is_structural_def

lemma process_line_flag: "in_data_section st \<Longrightarrow> in_data_section (process_line st l)"
  by (simp add: process_line_def Let_def split: scanned.splits prod.splits)

lemma process_lines_flag: "in_data_section st \<Longrightarrow> in_data_section (process_lines st ls)"
  unfolding process_lines_def
  by (induction ls arbitrary: st) (simp_all add: process_line_flag)

lemma process_line_prefix:
  "prefix (extracted_data st) (extracted_data (process_line st l)) \<and>
   prefix (info_messages st) (info_messages (process_line st l)) \<and>
   line_number (process_line st l) = line_number st + 1"
  by (simp add: process_line_def Let_def split: scanned.splits prod.splits)

lemma process_lines_prefix:
  "prefix (extracted_data st) (extracted_data (process_lines st ls)) \<and>
   prefix (info_messages st) (info_messages (process_lines st ls)) \<and>
   line_number (process_lines st ls) = line_number st + length ls"
  unfolding process_lines_def
proof (induction ls arbitrary: st)
  case Nil
  show ?case by simp
next
  case (Cons l ls)
  from Cons.IH [of "process_line st l"] process_line_prefix [of st l]
  show ?case by (auto intro: prefix_order.trans)
qed

lemma process_lines_append:
  "process_lines st (xs @ ys) = process_lines (process_lines st xs) ys"
  by (simp add: process_lines_def)

lemma process_line_header:
  "is_header (strip l) \<Longrightarrow> process_line st l =
     st\<lparr>in_data_section := True,
        info_messages := info_messages st @ [msg_section_started (line_number st + 1)],
        line_number := line_number st + 1\<rparr>"
  by (simp add: process_line_def section_scanner_def Let_def)

lemma process_line_outside:
  "\<not> in_data_section st \<Longrightarrow> \<not> is_header (strip l) \<Longrightarrow>
     process_line st l = st\<lparr>line_number := line_number st + 1\<rparr>"
  by (simp add: process_line_def section_scanner_def Let_def)

lemma process_lines_outside:
  "\<not> in_data_section st \<Longrightarrow> \<forall>l \<in> set pre. \<not> is_header (strip l) \<Longrightarrow>
     process_lines st pre = st\<lparr>line_number := line_number st + length pre\<rparr>"
proof (induction pre arbitrary: st)
  case Nil
  show ?case by (simp add: process_lines_def)
next
  case (Cons l pre)
  have "process_lines st (l # pre) = process_lines (process_line st l) pre"
    by (simp add: process_lines_def)
  also have "process_line st l = st\<lparr>line_number := line_number st + 1\<rparr>"
    using Cons.prems by (simp add: process_line_outside)
  also have "process_lines (st\<lparr>line_number := line_number st + 1\<rparr>) pre =
      st\<lparr>line_number := line_number st + 1\<rparr>\<lparr>line_number := line_number st + 1 + length pre\<rparr>"
    using Cons.prems Cons.IH [of "st\<lparr>line_number := line_number st + 1\<rparr>"] by simp
  finally show ?case by simp
qed

lemma candidates_append:
  "candidates st (xs @ ys) = candidates st xs @ candidates (process_lines st xs) ys"
  by (induction xs arbitrary: st) (simp_all add: process_lines_def)

lemma candidates_outside:
  "\<not> in_data_section st \<Longrightarrow> \<forall>l \<in> set pre. \<not> is_header (strip l) \<Longrightarrow> candidates st pre = []"
proof (induction pre arbitrary: st)
  case Nil
  show ?case by simp
next
  case (Cons l pre)
  have "in_data_section (process_line st l) = False"
    using Cons.prems by (simp add: process_line_outside)
  then have "candidates (process_line st l) pre = []"
    using Cons.prems Cons.IH by simp
  moreover have "section_scanner (in_data_section st) l = Discarded"
    using Cons.prems by (simp add: section_scanner_def)
  ultimately show ?case by simp
qed

text \<open>
  C4. The section flag is monotonic over one document: it is false in the initial
  state, and once true it stays true over any further lines. No line removes a row or
  a message collected before. A header line met again only sets the flag (already
  true), appends the section-start message and counts the line; everything else in the
  state is left as it was.
\<close>

theorem section_flag_monotonic:
  "\<not> in_data_section (initial_state msgs) \<and>
   (in_data_section st \<longrightarrow> in_data_section (process_lines st ls)) \<and>
   prefix (extracted_data st) (extracted_data (process_lines st ls)) \<and>
   prefix (info_messages st) (info_messages (process_lines st ls)) \<and>
   (is_header (strip l) \<longrightarrow>
      process_line st l =
        st\<lparr>in_data_section := True,
           info_messages := info_messages st @ [msg_section_started (line_number st + 1)],
           line_number := line_number st + 1\<rparr>)"
  using process_lines_flag [of st ls] process_lines_prefix [of st ls] process_line_header [of l st]
  by (simp add: initial_state_def)

lemma header_line_eval: "is_header (strip (ustr ''CLSF.CONTABIL DENOMINACAO / RUBRICA VALOR / TOTAL''))"
  by (simp add: str_eval)

theorem section_flag_monotonic_witness:
  "in_data_section (process_lines
      \<lparr>extracted_data = [(ustr ''1'', ustr ''A'', Finite 1)], in_data_section = True,
       info_messages = [], line_number = 3\<rparr>
      [ustr ''x'', ustr ''CLSF.CONTABIL DENOMINACAO / RUBRICA VALOR / TOTAL'']) \<and>
   process_line
      \<lparr>extracted_data = [(ustr ''1'', ustr ''A'', Finite 1)], in_data_section = True,
       info_messages = [], line_number = 3\<rparr>
      (ustr ''CLSF.CONTABIL DENOMINACAO / RUBRICA VALOR / TOTAL'') =
      \<lparr>extracted_data = [(ustr ''1'', ustr ''A'', Finite 1)], in_data_section = True,
       info_messages = [msg_section_started 4], line_number = 4\<rparr>"
  using section_flag_monotonic [of "[]"
      "\<lparr>extracted_data = [(ustr ''1'', ustr ''A'', Finite 1)], in_data_section = True,
        info_messages = [], line_number = 3\<rparr>"
      "[ustr ''x'', ustr ''CLSF.CONTABIL DENOMINACAO / RUBRICA VALOR / TOTAL'']"
      "ustr ''CLSF.CONTABIL DENOMINACAO / RUBRICA VALOR / TOTAL''"]
    header_line_eval
  by simp

text \<open>
  C3. Over any lines \<open>pre\<close> of which none has both header markers, started in the initial
  state, no line reaches the pattern and nothing in the state changes but the line
  counter, whatever the lines contain. A following header line \<open>h\<close> does not reach the
  pattern either and yields no row; a header line is never a candidate, in or out of
  the section.
\<close>

theorem no_candidate_before_header:
  assumes "\<forall>l \<in> set pre. \<not> is_header (strip l)"
  shows "candidates (initial_state msgs) pre = [] \<and>
    process_lines (initial_state msgs) pre = (initial_state msgs)\<lparr>line_number := length pre\<rparr> \<and>
    (is_header (strip h) \<longrightarrow>
       candidates (initial_state msgs) (pre @ [h]) = [] \<and>
       extracted_data (process_lines (initial_state msgs) (pre @ [h])) = [] \<and>
       section_scanner b h = SectionStart)"
proof -
  have out: "\<not> in_data_section (initial_state msgs)"
    by (simp add: initial_state_def)
  have c: "candidates (initial_state msgs) pre = []"
    using out assms by (rule candidates_outside)
  have p: "process_lines (initial_state msgs) pre = (initial_state msgs)\<lparr>line_number := length pre\<rparr>"
    using process_lines_outside [OF out assms] by (simp add: initial_state_def)
  have h: "candidates (initial_state msgs) (pre @ [h]) = [] \<and>
       extracted_data (process_lines (initial_state msgs) (pre @ [h])) = [] \<and>
       section_scanner b h = SectionStart" if "is_header (strip h)"
  proof -
    have s: "section_scanner b' h = SectionStart" for b'
      using that by (simp add: section_scanner_def)
    have "process_lines (initial_state msgs) (pre @ [h]) =
        process_line ((initial_state msgs)\<lparr>line_number := length pre\<rparr>) h"
      by (simp add: process_lines_append p) (simp add: process_lines_def)
    then have "extracted_data (process_lines (initial_state msgs) (pre @ [h])) = []"
      using that by (simp add: process_line_header) (simp add: initial_state_def)
    then show ?thesis
      using s c by (simp add: candidates_append)
  qed
  from c p h show ?thesis by blast
qed

theorem no_candidate_before_header_witness:
  "candidates (initial_state []) [ustr ''3.1.1 SALARIO 1,00'', ustr ''--- x ---''] = [] \<and>
   candidates (initial_state [])
     ([ustr ''3.1.1 SALARIO 1,00'', ustr ''--- x ---''] @ [ustr ''CLSF.CONTABIL DENOMINACAO / RUBRICA VALOR / TOTAL'']) = []"
proof -
  have "\<forall>l \<in> set [ustr ''3.1.1 SALARIO 1,00'', ustr ''--- x ---'']. \<not> is_header (strip l)"
    by (simp add: str_eval)
  from no_candidate_before_header [OF this, of "[]" "ustr ''CLSF.CONTABIL DENOMINACAO / RUBRICA VALOR / TOTAL''" True]
    header_line_eval
  show ?thesis by simp
qed

text \<open>
  C7 as stated fails for a header line met again inside the section: it has none of the
  structural marks, yet it is not forwarded.
\<close>

theorem header_inside_section_counterexample:
  "\<not> is_structural (strip (ustr ''CLSF.CONTABIL DENOMINACAO / RUBRICA VALOR / TOTAL'')) \<and>
   section_scanner True (ustr ''CLSF.CONTABIL DENOMINACAO / RUBRICA VALOR / TOTAL'') = SectionStart \<and>
   candidates \<lparr>extracted_data = [], in_data_section = True, info_messages = [], line_number = 1\<rparr>
     [ustr ''CLSF.CONTABIL DENOMINACAO / RUBRICA VALOR / TOTAL''] = []"
  by (simp add: section_scanner_def str_eval)

text \<open>
  C7, amended. Inside the section, a line without both header markers that is empty
  after trimming, contains \<open>---\<close>, starts with \<open>***\<close>, contains \<open>SIAPE, GERENCIAL\<close> or
  starts with \<open>DATA:\<close> is passed over: it does not reach the pattern and changes only
  the line counter. Every other line without both header markers reaches the pattern,
  trimmed.
\<close>

theorem scanner_inside_section:
  assumes "in_data_section st" "\<not> is_header (strip line)"
  shows "(is_structural (strip line) \<longrightarrow>
            candidates st [line] = [] \<and> process_line st line = st\<lparr>line_number := line_number st + 1\<rparr>) \<and>
         (\<not> is_structural (strip line) \<longrightarrow> candidates st [line] = [strip line])"
  using assms by (simp add: section_scanner_def process_line_def Let_def)

theorem scanner_inside_section_witness:
  "candidates \<lparr>extracted_data = [], in_data_section = True, info_messages = [], line_number = 1\<rparr>
     [ustr ''  3.1.1 SALARIO 1,00 ''] = [ustr ''3.1.1 SALARIO 1,00''] \<and>
   candidates \<lparr>extracted_data = [], in_data_section = True, info_messages = [], line_number = 1\<rparr>
     [ustr '' DATA: 01/01/2024''] = []"
proof -
  let ?st = "\<lparr>extracted_data = [], in_data_section = True, info_messages = [], line_number = 1\<rparr>"
  have a: "in_data_section ?st" by simp
  have 1: "\<not> is_header (strip (ustr ''  3.1.1 SALARIO 1,00 ''))" "\<not> is_structural (strip (ustr ''  3.1.1 SALARIO 1,00 ''))"
    "strip (ustr ''  3.1.1 SALARIO 1,00 '') = ustr ''3.1.1 SALARIO 1,00''"
    by (simp_all add: str_eval)
  have 2: "\<not> is_header (strip (ustr '' DATA: 01/01/2024''))" "is_structural (strip (ustr '' DATA: 01/01/2024''))"
    by (simp_all add: str_eval)
  from scanner_inside_section [OF a 1(1)] scanner_inside_section [OF a 2(1)] 1 2
  show ?thesis by simp
qed

section \<open>Matches as texts\<close>

lemma sub_append_left: "sub (xs @ ys) 0 (length xs) = xs"
  by (simp add: sub_def)

lemma sub_append_right: "sub (xs @ ys) (length xs) (length xs + length ys) = ys"
  by (simp add: sub_def)

lemma sub_append_shift: "sub (xs @ ys) (length xs + i) (length xs + j) = sub ys i j"
  by (simp add: sub_def)

lemma run_list:
  "j \<le> length s \<Longrightarrow> i \<le> j \<Longrightarrow> list_all (holds c) (sub s i j) \<Longrightarrow> run s c i j"
  by (simp add: run_sub)

lemma run_bound: "run s c i j \<Longrightarrow> i \<le> length s \<Longrightarrow> j \<le> length s"
  using run_le [of s c i j] by (cases "i < j") (auto simp: run_def)

lemma parts_bounds:
  assumes "parts s i1 i2 i3 i4 j"
  shows "0 < i1 \<and> i1 < i2 \<and> i2 \<le> i3 \<and> i3 < i4 \<and> i4 \<le> j \<and> j \<le> length s"
  using assms run_mono [of s AnyChar i2 i3] by (simp add: parts_def)

lemma parts_texts:
  assumes "parts s i1 i2 i3 i4 j"
  shows "sub s 0 j = sub s 0 i1 @ sub s i1 i2 @ sub s i2 i3 @ sub s i3 i4 @ sub s i4 j \<and>
    sub s 0 i1 \<noteq> [] \<and> list_all (\<lambda>x. \<not> isspace x) (sub s 0 i1) \<and>
    sub s i1 i2 \<noteq> [] \<and> list_all isspace (sub s i1 i2) \<and>
    list_all (\<lambda>x. x \<noteq> NEWLINE) (sub s i2 i3) \<and>
    sub s i3 i4 \<noteq> [] \<and> list_all isspace (sub s i3 i4) \<and>
    amount_shape (sub s i4 j)"
proof -
  note b = parts_bounds [OF assms]
  note p = assms [unfolded parts_def]
  have le: "i1 \<le> length s" "i2 \<le> length s" "i3 \<le> length s" "i4 \<le> length s" "j \<le> length s"
    using b by simp_all
  have 1: "sub s 0 j = sub s 0 i1 @ sub s i1 j" by (rule sub_split) (use b in simp_all)
  have 2: "sub s i1 j = sub s i1 i2 @ sub s i2 j" by (rule sub_split) (use b in simp_all)
  have 3: "sub s i2 j = sub s i2 i3 @ sub s i3 j" by (rule sub_split) (use b in simp_all)
  have 4: "sub s i3 j = sub s i3 i4 @ sub s i4 j" by (rule sub_split) (use b in simp_all)
  have n1: "length (sub s 0 i1) = i1" using length_sub [OF le(1), of 0] by simp
  have n2: "length (sub s i1 i2) = i2 - i1" using le(2) by (rule length_sub)
  have n4: "length (sub s i3 i4) = i4 - i3" using le(4) by (rule length_sub)
  have h1: "holds NonSpace = (\<lambda>x. \<not> isspace x)" "holds Space = isspace"
    "holds AnyChar = (\<lambda>x. x \<noteq> NEWLINE)"
    by (rule ext, simp)+
  have r1: "list_all (\<lambda>x. \<not> isspace x) (sub s 0 i1)"
    using run_sub [OF le(1), of NonSpace 0] p by (simp add: h1)
  have r2: "list_all isspace (sub s i1 i2)"
    using run_sub [OF le(2), of Space i1] p by (simp add: h1)
  have r3: "list_all (\<lambda>x. x \<noteq> NEWLINE) (sub s i2 i3)"
    using run_sub [OF le(3), of AnyChar i2] p by (simp add: h1)
  have r4: "list_all isspace (sub s i3 i4)"
    using run_sub [OF le(4), of Space i3] p by (simp add: h1)
  have e1: "sub s 0 i1 \<noteq> []" using n1 b by auto
  have e2: "sub s i1 i2 \<noteq> []" using n2 b by auto
  have e4: "sub s i3 i4 \<noteq> []" using n4 b by auto
  show ?thesis
    unfolding 1 2 3 4 using e1 e2 e4 r1 r2 r3 r4 p by simp
qed

lemma match_sound_text:
  assumes "re_match data_pattern s = Some m" "s = [] \<or> last s \<noteq> NEWLINE"
  shows "\<exists>c w1 d w2 a. s = c @ w1 @ d @ w2 @ a \<and>
     c \<noteq> [] \<and> list_all (\<lambda>x. \<not> isspace x) c \<and> w1 \<noteq> [] \<and> list_all isspace w1 \<and>
     list_all (\<lambda>x. x \<noteq> NEWLINE) d \<and>
     w2 \<noteq> [] \<and> list_all isspace w2 \<and> amount_shape a \<and> m 1 = c \<and> m 2 = d \<and> m 3 = a"
proof -
  from match_sound [OF assms(1)] obtain i1 i2 i3 i4 j where
    p: "parts s i1 i2 i3 i4 j" and m: "m 1 = sub s 0 i1" "m 2 = sub s i2 i3" "m 3 = sub s i4 j"
    by blast
  have "j = length s"
  proof (rule ccontr)
    assume "j \<noteq> length s"
    then have "Suc j = length s \<and> s ! j = NEWLINE" using p by (simp add: parts_def)
    then have "s \<noteq> [] \<and> last s = NEWLINE"
      by (metis diff_Suc_1 last_conv_nth length_0_conv nat.simps(3))
    then show False using assms(2) by simp
  qed
  then have "sub s 0 j = s" by (simp add: sub_all)
  with parts_texts [OF p] m show ?thesis by metis
qed

lemma match_complete_text:
  assumes "c \<noteq> []" "list_all (\<lambda>x. \<not> isspace x) c" "w1 \<noteq> []" "list_all isspace w1"
    "list_all (\<lambda>x. x \<noteq> NEWLINE) d" "w2 \<noteq> []" "list_all isspace w2" "amount_shape a"
  shows "\<exists>m. re_match data_pattern (c @ w1 @ d @ w2 @ a) = Some m"
proof -
  let ?s = "c @ w1 @ d @ w2 @ a"
  let ?i1 = "length c"
  let ?i2 = "length c + length w1"
  let ?i3 = "length c + length w1 + length d"
  let ?i4 = "length c + length w1 + length d + length w2"
  have s1: "sub ?s 0 ?i1 = c" by (rule sub_append_left)
  have s2: "sub ?s ?i1 ?i2 = w1"
    using sub_append_right [of c "w1 @ d @ w2 @ a"] sub_append_left [of w1 "d @ w2 @ a"]
      sub_append_shift [of c "w1 @ d @ w2 @ a" 0 "length w1"] by simp
  have s3: "sub ?s ?i2 ?i3 = d"
    using sub_append_shift [of "c @ w1" "d @ w2 @ a" 0 "length d"] sub_append_left [of d "w2 @ a"]
    by simp
  have s4: "sub ?s ?i3 ?i4 = w2"
    using sub_append_shift [of "c @ w1 @ d" "w2 @ a" 0 "length w2"] sub_append_left [of w2 a]
    by (simp add: add.assoc)
  have s5: "sub ?s ?i4 (length ?s) = a"
    using sub_append_shift [of "c @ w1 @ d @ w2" a 0 "length a"] sub_all [of a]
    by (simp add: add.assoc)
  have h1: "holds NonSpace = (\<lambda>x. \<not> isspace x)" "holds Space = isspace"
    "holds AnyChar = (\<lambda>x. x \<noteq> NEWLINE)"
    by (rule ext, simp)+
  have "run ?s NonSpace 0 ?i1"
    by (rule run_list) (simp_all add: s1 h1 assms)
  moreover have "run ?s Space ?i1 ?i2"
    by (rule run_list) (simp_all add: s2 h1 assms)
  moreover have "run ?s AnyChar ?i2 ?i3"
    by (rule run_list) (simp_all add: s3 h1 assms)
  moreover have "run ?s Space ?i3 ?i4"
    by (rule run_list) (simp_all add: s4 h1 assms)
  ultimately have "parts ?s ?i1 ?i2 ?i3 ?i4 (length ?s)"
    unfolding parts_def using assms s5 by simp
  then show ?thesis by (rule match_complete)
qed

section \<open>The amount parser\<close>

lemma replace_Nil: "replace [] old new = []"
  by (simp add: replace_def)

lemma replace_Cons: "replace (x # xs) old new = (if x = old then new else [x]) @ replace xs old new"
  by (simp add: replace_def)

lemma replace_append: "replace (xs @ ys) old new = replace xs old new @ replace ys old new"
  by (simp add: replace_def)

lemma normalise_append: "normalise (xs @ ys) = normalise xs @ normalise ys"
  by (simp add: normalise_def replace_append)

lemma normalise_digits: "list_all isdecimal ds \<Longrightarrow> normalise ds = ds"
proof (induction ds)
  case Nil
  show ?case by (simp add: normalise_def replace_Nil)
next
  case (Cons x ds)
  then have "normalise ds = ds" "x \<noteq> DOT" "x \<noteq> COMMA"
    using isdecimal_not_sep [of x] by simp_all
  then show ?case
    by (simp add: normalise_def replace_Cons replace_Nil)
qed

lemma normalise_dot: "normalise (DOT # xs) = normalise xs"
  by (simp add: normalise_def replace_Cons replace_Nil)

lemma normalise_comma: "normalise (COMMA # xs) = DOT # normalise xs"
  by (simp add: normalise_def replace_Cons replace_Nil)

lemma amount_tail_normalise:
  "amount_tail t \<Longrightarrow> \<exists>ip d1 d2. normalise t = ip @ [DOT, d1, d2] \<and> list_all isdecimal ip \<and>
      isdecimal d1 \<and> isdecimal d2 \<and> filter isdecimal t = ip @ [d1, d2]"
proof (induction t rule: amount_tail.induct)
  case (1 c d1 d2)
  then have c: "c = COMMA" "isdecimal d1" "isdecimal d2" by simp_all
  have "normalise [c, d1, d2] = DOT # [d1, d2]"
    unfolding c(1) normalise_comma using normalise_digits [of "[d1, d2]"] c by simp
  moreover have "\<not> isdecimal c" using isdecimal_not_sep [of c] c(1) by blast
  ultimately have "normalise [c, d1, d2] = [] @ [DOT, d1, d2] \<and> list_all isdecimal [] \<and>
      isdecimal d1 \<and> isdecimal d2 \<and> filter isdecimal [c, d1, d2] = [] @ [d1, d2]"
    using c by simp
  then show ?case by blast
next
  case (2 c d1 d2 d3 rest)
  then have c: "c = DOT" "isdecimal d1" "isdecimal d2" "isdecimal d3" "amount_tail rest"
    by simp_all
  from "2.IH" [OF c(5)] obtain ip e1 e2 where
    ih: "normalise rest = ip @ [DOT, e1, e2]" "list_all isdecimal ip" "isdecimal e1" "isdecimal e2"
      "filter isdecimal rest = ip @ [e1, e2]"
    by blast
  have nc: "\<not> isdecimal c" using isdecimal_not_sep [of c] c(1) by blast
  have "normalise (c # d1 # d2 # d3 # rest) = normalise ([d1, d2, d3] @ rest)"
    unfolding c(1) normalise_dot by simp
  also have "\<dots> = [d1, d2, d3] @ normalise rest"
    unfolding normalise_append using normalise_digits [of "[d1, d2, d3]"] c by simp
  finally have "normalise (c # d1 # d2 # d3 # rest) = ([d1, d2, d3] @ ip) @ [DOT, e1, e2]"
    using ih(1) by simp
  moreover have "filter isdecimal (c # d1 # d2 # d3 # rest) = ([d1, d2, d3] @ ip) @ [e1, e2]"
    using nc c ih(5) by simp
  moreover have "list_all isdecimal ([d1, d2, d3] @ ip)"
    using c ih(2) by simp
  ultimately show ?case using ih(3,4) by blast
qed simp_all

lemma amount_shape_normalise:
  assumes "amount_shape a"
  shows "\<exists>ip d1 d2. normalise a = ip @ [DOT, d1, d2] \<and> ip \<noteq> [] \<and> list_all isdecimal ip \<and>
      isdecimal d1 \<and> isdecimal d2 \<and> filter isdecimal a = ip @ [d1, d2]"
proof -
  from assms obtain k where k: "k \<in> {1, 2, 3}" "k \<le> length a" "list_all isdecimal (take k a)"
      "amount_tail (drop k a)"
    unfolding amount_shape_def by blast
  from amount_tail_normalise [OF k(4)] obtain ip d1 d2 where
    t: "normalise (drop k a) = ip @ [DOT, d1, d2]" "list_all isdecimal ip"
      "isdecimal d1" "isdecimal d2" "filter isdecimal (drop k a) = ip @ [d1, d2]"
    by blast
  have a: "a = take k a @ drop k a" by simp
  have "normalise a = normalise (take k a) @ normalise (drop k a)"
    using normalise_append [of "take k a" "drop k a"] by simp
  then have 1: "normalise a = (take k a @ ip) @ [DOT, d1, d2]"
    using normalise_digits [OF k(3)] t(1) by simp
  have "filter isdecimal a = filter isdecimal (take k a) @ filter isdecimal (drop k a)"
    using filter_append [of isdecimal "take k a" "drop k a"] by simp
  moreover have "filter isdecimal (take k a) = take k a"
    using k(3) by (simp add: list_all_iff)
  ultimately have 2: "filter isdecimal a = (take k a @ ip) @ [d1, d2]"
    using t(5) by simp
  have 3: "take k a @ ip \<noteq> []" using k(1,2) by auto
  have 4: "list_all isdecimal (take k a @ ip)" using k(3) t(2) by simp
  from 1 2 3 4 t(3,4) show ?thesis by blast
qed

lemma asc_digit: "isdecimal c \<Longrightarrow> ascii_digit (asc c) \<and> digit_of (asc c) = digit_of c"
proof -
  assume d: "isdecimal c"
  show ?thesis
  proof (cases "c < 127")
    case True
    then have "c < 128" by simp
    from isdecimal_ascii [OF this] d True show ?thesis
      by (simp add: asc_def ascii_digit_def)
  next
    case False
    have l: "digit_of c < 10" using d by (rule digit_of_less)
    then have "48 + digit_of c < 128" by simp
    from digit_of_ascii [OF this] l False show ?thesis
      by (simp add: asc_def ascii_digit_def)
  qed
qed

lemma to_ascii_Cons_digit: "isdecimal c \<Longrightarrow> to_ascii (c # cs) = asc c # to_ascii cs"
proof -
  assume d: "isdecimal c"
  then obtain v where v: "decimal c = Some v" by (auto simp: isdecimal_def)
  have "\<not> isspace c" using isdecimal_not_sep [OF d] by simp
  then show ?thesis by (simp add: asc_def v digit_of_def)
qed

lemma to_ascii_digits: "list_all isdecimal ds \<Longrightarrow> to_ascii (ds @ cs) = map asc ds @ to_ascii cs"
  by (induction ds) (simp_all add: to_ascii_Cons_digit del: to_ascii.simps(2))

lemma digits_value_asc: "list_all isdecimal ds \<Longrightarrow> digits_value (map asc ds) = digits_value ds"
proof (induction ds rule: rev_induct)
  case Nil
  show ?case by simp
next
  case (snoc c ds)
  then have "digits_value (map asc ds) = digits_value ds" "digit_of (asc c) = digit_of c"
    using asc_digit [of c] by simp_all
  then show ?case by (simp add: digits_value_def)
qed

lemma remove_underscores_none:
  "\<forall>c \<in> set t. c \<noteq> 0x5F \<Longrightarrow> p \<noteq> 0x5F \<Longrightarrow> remove_underscores p t = Some t"
  by (induction t arbitrary: p) simp_all

lemma strip_ascii_id:
  assumes "t \<noteq> []" "\<not> ascii_space (hd t)" "\<not> ascii_space (last t)"
  shows "strip_ascii t = t"
proof -
  have 1: "dropWhile ascii_space t = t"
    using assms(1,2) by (cases t) simp_all
  have 2: "dropWhile ascii_space (rev t) = rev t"
    unfolding dropWhile_eq_self_iff using assms(1,3) by (simp add: hd_rev)
  show ?thesis by (simp add: strip_ascii_def 1 2)
qed

lemma ascii_digit_plain:
  "ascii_digit c \<Longrightarrow> \<not> ascii_space c \<and> c \<noteq> 0x5F \<and> c \<noteq> MINUS \<and> c \<noteq> 0x2B \<and> c \<noteq> DOT \<and>
     lower c = c \<and> c \<noteq> 0x69 \<and> c \<noteq> 0x6E"
  by (auto simp: ascii_digit_def ascii_space_def lower_def)

lemma unsigned_number:
  assumes "t \<noteq> []" "ascii_digit (hd t)"
  shows "unsigned t = map_option (\<lambda>(m, k). scaled m k) (number t)"
proof -
  obtain c cs where t: "t = c # cs" using assms(1) by (cases t) auto
  have "lower c \<noteq> 0x69 \<and> lower c \<noteq> 0x6E" using assms(2) ascii_digit_plain [of c] t by simp
  then show ?thesis by (simp add: unsigned_def t)
qed

lemma number_decimal:
  assumes "list_all ascii_digit ip" "list_all ascii_digit fr" "ip \<noteq> []"
  shows "number (ip @ DOT # fr) = Some (digits_value (ip @ fr), - int (length fr))"
proof -
  have nd: "\<not> ascii_digit DOT" by (simp add: ascii_digit_def)
  have 1: "takeWhile ascii_digit (ip @ DOT # fr) = ip"
    using assms(1) nd by (simp add: list_all_iff takeWhile_tail)
  have 2: "dropWhile ascii_digit (ip @ DOT # fr) = DOT # fr"
    using assms(1) nd by (simp add: list_all_iff dropWhile_append3)
  have 3: "takeWhile ascii_digit fr = fr" "dropWhile ascii_digit fr = []"
    using assms(2) by (simp_all add: list_all_iff)
  show ?thesis
    using assms(3) by (simp add: number_def 1 2 3 exponent_def)
qed

lemma map_asc_digits: "list_all isdecimal ds \<Longrightarrow> list_all ascii_digit (map asc ds)"
  by (induction ds) (simp_all add: asc_digit)

lemma py_float_ascii_decimal:
  assumes "ip \<noteq> []" "list_all ascii_digit ip" "fr \<noteq> []" "list_all ascii_digit fr"
    "remove_underscores 0 (to_ascii text) = Some (ip @ DOT # fr)"
  shows "py_float text = Inr (binary64 (digits_value (ip @ fr)) (10 ^ length fr))"
proof -
  define t where "t = ip @ DOT # fr"
  have ne: "t \<noteq> []" by (simp add: t_def)
  have h: "hd t = hd ip" using assms(1) by (simp add: t_def)
  have "hd ip \<in> set ip" using assms(1) by simp
  then have hd: "ascii_digit (hd t)"
    unfolding h using assms(2) by (simp add: list_all_iff)
  have l: "last t = last fr" using assms(3) by (simp add: t_def)
  have "last fr \<in> set fr" using assms(3) by simp
  then have ld: "ascii_digit (last t)"
    unfolding l using assms(4) by (simp add: list_all_iff)
  have c: "strip_ascii t = t"
    using ne hd ld ascii_digit_plain by (intro strip_ascii_id) blast+
  obtain x xs where x: "t = x # xs" using ne by (cases t) auto
  have "x \<noteq> MINUS \<and> x \<noteq> 0x2B" using hd ascii_digit_plain [of x] unfolding x by simp
  then have d: "split_sign t = (False, t)"
    unfolding x by (simp add: split_sign_def)
  have "number t = Some (digits_value (ip @ fr), - int (length fr))"
    unfolding t_def using assms(2,4,1) by (rule number_decimal)
  then have e: "unsigned t = Some (scaled (digits_value (ip @ fr)) (- int (length fr)))"
    using unsigned_number [OF ne hd] by simp
  have g: "scaled (digits_value (ip @ fr)) (- int (length fr)) =
      binary64 (digits_value (ip @ fr)) (10 ^ length fr)"
    using assms(3) by (simp add: scaled_def)
  show ?thesis
    unfolding py_float_def assms(5) t_def [symmetric] by (simp add: c d e g)
qed

lemma py_float_decimal:
  assumes "ip \<noteq> []" "list_all isdecimal ip" "fr \<noteq> []" "list_all isdecimal fr"
  shows "py_float (ip @ DOT # fr) = Inr (binary64 (digits_value (ip @ fr)) (10 ^ length fr))"
proof -
  define t1 where "t1 = map asc ip"
  define t2 where "t2 = map asc fr"
  have ai: "list_all ascii_digit t1" "list_all ascii_digit t2"
    unfolding t1_def t2_def using assms(2,4) by (simp_all only: map_asc_digits)
  have n: "t1 \<noteq> []" "t2 \<noteq> []" "length t2 = length fr"
    using assms(1,3) by (simp_all add: t1_def t2_def)
  have "to_ascii (ip @ DOT # fr) = map asc ip @ to_ascii (DOT # fr)"
    using assms(2) by (rule to_ascii_digits)
  also have "to_ascii (DOT # fr) = DOT # to_ascii (fr @ [])" by simp
  also have "to_ascii (fr @ []) = map asc fr @ to_ascii []"
    using assms(4) by (rule to_ascii_digits)
  finally have a: "to_ascii (ip @ DOT # fr) = t1 @ DOT # t2"
    by (simp add: t1_def t2_def)
  have "\<forall>c \<in> set (t1 @ DOT # t2). c \<noteq> 0x5F"
    using ai ascii_digit_plain by (auto simp: list_all_iff)
  then have b: "remove_underscores 0 (to_ascii (ip @ DOT # fr)) = Some (t1 @ DOT # t2)"
    unfolding a by (rule remove_underscores_none) simp
  have "digits_value (t1 @ t2) = digits_value (map asc (ip @ fr))"
    by (simp add: t1_def t2_def)
  also have "\<dots> = digits_value (ip @ fr)"
    using assms(2,4) by (intro digits_value_asc) simp
  finally have f: "digits_value (t1 @ t2) = digits_value (ip @ fr)" .
  from py_float_ascii_decimal [OF n(1) ai(1) n(2) ai(2) b] show ?thesis
    unfolding f n(3) .
qed

lemma amount_parser_shape:
  assumes "amount_shape a"
  shows "amount_parser a = Inr (binary64 (digits_value (filter isdecimal a)) 100)"
proof -
  from amount_shape_normalise [OF assms] obtain ip d1 d2 where
    n: "normalise a = ip @ [DOT, d1, d2]" "ip \<noteq> []" "list_all isdecimal ip"
      "isdecimal d1" "isdecimal d2" "filter isdecimal a = ip @ [d1, d2]"
    by blast
  have "amount_parser a = py_float (ip @ DOT # [d1, d2])"
    using n(1) by (simp add: amount_parser_def normalise_def)
  also have "\<dots> = Inr (binary64 (digits_value (ip @ [d1, d2])) (10 ^ length [d1, d2]))"
    by (rule py_float_decimal) (use n in simp_all)
  finally show ?thesis using n(6) by simp
qed

lemma pow2_pos: "0 < pow2 k"
  by (simp add: pow2_def)

lemma nonneg_binary64: "nonneg (binary64 p q)"
  using pow2_pos [of "max (floor_log2 p q - 52) (- 1074)"]
  by (simp add: binary64_def nonneg_def Let_def less_imp_le)

section \<open>The record extractor\<close>

lemma bit_length_0: "bit_length 0 = 0"
  by (simp add: bit_length.simps)

lemma bit_length_1: "bit_length 1 = 1" "bit_length (Suc 0) = 1"
  by (simp_all add: bit_length.simps)

lemma bit_length_numeral: "bit_length (numeral k) = Suc (bit_length (numeral k div 2))"
  by (subst bit_length.simps) simp

lemmas float_eval = py_float_def unsigned_def number_def exponent_def split_sign_def scaled_def
  strip_ascii_def ascii_space_def ascii_digit_def lower_def isspace_def decimal_ascii
  binary64_def floor_log2_def digits_value_def digit_of_ascii pow2_def pow2_le_def
  round_half_even_def bit_length_0 bit_length_1 bit_length_numeral Let_def

lemmas match_eval = ms.simps re_match_def data_pattern_def amount_re_def group_text_def
  isspace_def isdecimal_ascii Let_def

lemmas extract_eval = record_extractor_def amount_parser_def replace_def strip_def

lemma record_extractor_match:
  assumes "re_match data_pattern c = Some m"
  shows "amount_shape (m 3) \<and>
    record_extractor n c =
      ([(m 1, strip (m 2), binary64 (digits_value (filter isdecimal (m 3))) 100)], [])"
proof -
  from match_sound [OF assms] obtain i1 i2 i3 i4 j where
    "parts c i1 i2 i3 i4 j" "m 3 = sub c i4 j" by blast
  then have a: "amount_shape (m 3)" by (simp add: parts_def)
  from amount_parser_shape [OF a] assms show ?thesis
    using a by (simp add: record_extractor_def)
qed

lemma record_extractor_no_match:
  "re_match data_pattern c = None \<Longrightarrow> record_extractor n c = ([], [])"
  by (simp add: record_extractor_def)

lemma record_extractor_cases:
  "record_extractor n c = ([], []) \<or>
   (\<exists>m. re_match data_pattern c = Some m \<and> amount_shape (m 3) \<and>
      record_extractor n c =
        ([(m 1, strip (m 2), binary64 (digits_value (filter isdecimal (m 3))) 100)], []))"
proof (cases "re_match data_pattern c")
  case None
  then show ?thesis by (simp add: record_extractor_no_match)
next
  case (Some m)
  from record_extractor_match [OF this] Some show ?thesis by blast
qed

text \<open>
  C8. The conversion succeeds on every text of the amount shape. So whenever the pattern
  matches, group 3 has that shape, the conversion returns a float and exactly one row is
  appended, with no message; the extractor never produces the warning of the
  \<^verbatim>\<open>except ValueError\<close> branch.
\<close>
theorem amount_parse_never_fails:
  "(amount_shape a \<longrightarrow> (\<exists>v. amount_parser a = Inr v)) \<and>
   (re_match data_pattern c = Some m \<longrightarrow>
      amount_shape (m 3) \<and>
      (\<exists>v. amount_parser (m 3) = Inr v \<and> record_extractor n c = ([(m 1, strip (m 2), v)], []))) \<and>
   snd (record_extractor n c) = []"
proof -
  have 1: "\<exists>v. amount_parser a = Inr v" if "amount_shape a"
    using amount_parser_shape [OF that] by blast
  have 2: "amount_shape (m 3) \<and>
      (\<exists>v. amount_parser (m 3) = Inr v \<and> record_extractor n c = ([(m 1, strip (m 2), v)], []))"
    if "re_match data_pattern c = Some m"
    using record_extractor_match [OF that, of n] amount_parser_shape [of "m 3"] by simp
  have 3: "snd (record_extractor n c) = []"
    using record_extractor_cases [of n c] by auto
  from 1 2 3 show ?thesis by blast
qed

lemma example_match:
  "map_option (\<lambda>m. (m 1, m 2, m 3))
     (re_match data_pattern (ustr ''3.1.1.1.01.04 VENCIMENTO BASICO 1.234,56'')) =
   Some (ustr ''3.1.1.1.01.04'', ustr ''VENCIMENTO BASICO'', ustr ''1.234,56'')"
  by (simp add: match_eval)

lemma example_amount_shape: "amount_shape (ustr ''1.234,56'')"
  by (simp add: amount_shape_def isdecimal_ascii)

lemma example_amount: "amount_parser (ustr ''1.234,56'') = Inr (Finite (2714826150374277 / 2199023255552))"
  by (simp add: amount_parser_def replace_def float_eval)

lemma arabic_match:
  "map_option (\<lambda>m. (m 1, m 2, m 3))
     (re_match data_pattern [0x41, 0x20, 0x42, 0x20, 0x661, COMMA, 0x662, 0x663]) =
   Some (ustr ''A'', ustr ''B'', [0x661, COMMA, 0x662, 0x663])"
  by (simp add: match_eval isdecimal_def decimal_def digit_zeros_def)

theorem amount_parse_never_fails_witness:
  "amount_shape (ustr ''1.234,56'') \<and> (\<exists>v. amount_parser (ustr ''1.234,56'') = Inr v) \<and>
   (\<exists>m. re_match data_pattern (ustr ''3.1.1.1.01.04 VENCIMENTO BASICO 1.234,56'') = Some m \<and>
      amount_shape (m 3) \<and>
      (\<exists>v. amount_parser (m 3) = Inr v \<and>
         record_extractor 5 (ustr ''3.1.1.1.01.04 VENCIMENTO BASICO 1.234,56'') =
           ([(m 1, strip (m 2), v)], []))) \<and>
   (\<exists>m. re_match data_pattern [0x41, 0x20, 0x42, 0x20, 0x661, COMMA, 0x662, 0x663] = Some m \<and>
      amount_shape (m 3) \<and>
      (\<exists>v. amount_parser (m 3) = Inr v \<and>
         record_extractor 5 [0x41, 0x20, 0x42, 0x20, 0x661, COMMA, 0x662, 0x663] =
           ([(m 1, strip (m 2), v)], [])))"
proof -
  obtain m where m: "re_match data_pattern (ustr ''3.1.1.1.01.04 VENCIMENTO BASICO 1.234,56'') = Some m"
    using example_match by auto
  obtain m' where m': "re_match data_pattern [0x41, 0x20, 0x42, 0x20, 0x661, COMMA, 0x662, 0x663] = Some m'"
    using arabic_match by auto
  from amount_parse_never_fails [of "ustr ''1.234,56''"
      "ustr ''3.1.1.1.01.04 VENCIMENTO BASICO 1.234,56''" m 5]
    amount_parse_never_fails [of "ustr ''1.234,56''"
      "[0x41, 0x20, 0x42, 0x20, 0x661, COMMA, 0x662, 0x663]" m' 5]
    example_amount_shape m m'
  show ?thesis by blast
qed

text \<open>
  C1. The line \<^verbatim>\<open>3.1.1.1.01.04 VENCIMENTO BASICO 1.234,56\<close> yields exactly one row, with the
  classification \<^verbatim>\<open>3.1.1.1.01.04\<close>, the description \<^verbatim>\<open>VENCIMENTO BASICO\<close> and the float
  that the literal \<^verbatim>\<open>1234.56\<close> denotes (the binary64 number nearest to 1234.56), and no
  message.
\<close>
theorem example_line_record:
  "record_extractor n (ustr ''3.1.1.1.01.04 VENCIMENTO BASICO 1.234,56'') =
     ([(ustr ''3.1.1.1.01.04'', ustr ''VENCIMENTO BASICO'', Finite (2714826150374277 / 2199023255552))], []) \<and>
   py_float (ustr ''1234.56'') = Inr (Finite (2714826150374277 / 2199023255552)) \<and>
   \<bar>2714826150374277 / 2199023255552 - 123456 / 100 :: rat\<bar> < 1 / 2 ^ 43"
proof -
  obtain m where m: "re_match data_pattern (ustr ''3.1.1.1.01.04 VENCIMENTO BASICO 1.234,56'') = Some m"
      "m 1 = ustr ''3.1.1.1.01.04''" "m 2 = ustr ''VENCIMENTO BASICO''" "m 3 = ustr ''1.234,56''"
    using example_match by auto
  have "strip (ustr ''VENCIMENTO BASICO'') = ustr ''VENCIMENTO BASICO''"
    by (simp add: strip_def isspace_def)
  then have 1: "record_extractor n (ustr ''3.1.1.1.01.04 VENCIMENTO BASICO 1.234,56'') =
     ([(ustr ''3.1.1.1.01.04'', ustr ''VENCIMENTO BASICO'', Finite (2714826150374277 / 2199023255552))], [])"
    using m example_amount by (simp add: record_extractor_def)
  have 2: "py_float (ustr ''1234.56'') = Inr (Finite (2714826150374277 / 2199023255552))"
    by (simp add: float_eval)
  have 3: "\<bar>2714826150374277 / 2199023255552 - 123456 / 100 :: rat\<bar> < 1 / 2 ^ 43"
    by simp
  from 1 2 3 show ?thesis by blast
qed

theorem example_line_record_witness:
  "length (fst (record_extractor 1 (ustr ''3.1.1.1.01.04 VENCIMENTO BASICO 1.234,56''))) = 1 \<and>
   snd (record_extractor 1 (ustr ''3.1.1.1.01.04 VENCIMENTO BASICO 1.234,56'')) = []"
  using example_line_record [of 1] by simp

lemma strip_last: "strip s \<noteq> [] \<Longrightarrow> \<not> isspace (last (strip s))"
proof -
  assume a: "strip s \<noteq> []"
  let ?r = "dropWhile isspace (rev (dropWhile isspace s))"
  have r: "?r \<noteq> []" using a by (simp add: strip_def)
  then have "\<not> isspace (hd ?r)" by (rule hd_dropWhile)
  moreover have "last (strip s) = hd ?r"
    using r by (simp add: strip_def last_rev)
  ultimately show ?thesis by simp
qed

lemma strip_no_newline_end: "strip s = [] \<or> last (strip s) \<noteq> NEWLINE"
  using strip_last [of s] by (auto simp: isspace_def)

lemma strip_blank: "list_all isspace d \<Longrightarrow> strip d = []"
proof -
  assume "list_all isspace d"
  then have e: "dropWhile isspace d = []"
    unfolding dropWhile_eq_Nil_conv list_all_iff .
  show ?thesis unfolding strip_def e by simp
qed

lemma amount_tail_end:
  "amount_tail t \<Longrightarrow> \<exists>p d1 d2. t = p @ [COMMA, d1, d2] \<and> isdecimal d1 \<and> isdecimal d2"
proof (induction t rule: amount_tail.induct)
  case (1 c d1 d2)
  then have "[c, d1, d2] = [] @ [COMMA, d1, d2] \<and> isdecimal d1 \<and> isdecimal d2" by simp
  then show ?case by blast
next
  case (2 c d1 d2 d3 rest)
  then obtain p e1 e2 where "rest = p @ [COMMA, e1, e2]" "isdecimal e1" "isdecimal e2"
    by auto
  then have "c # d1 # d2 # d3 # rest = (c # d1 # d2 # d3 # p) @ [COMMA, e1, e2] \<and>
      isdecimal e1 \<and> isdecimal e2" by simp
  then show ?case by blast
qed simp_all

lemma amount_tail_chars: "amount_tail t \<Longrightarrow> \<forall>x \<in> set t. \<not> isspace x"
proof (induction t rule: amount_tail.induct)
  case (1 c d1 d2)
  then show ?case using isdecimal_not_sep by (auto simp: isspace_def)
next
  case (2 c d1 d2 d3 rest)
  then show ?case using isdecimal_not_sep by (auto simp: isspace_def)
qed simp_all

lemma amount_shape_end:
  assumes "amount_shape a"
  shows "\<exists>p d1 d2. a = p @ [COMMA, d1, d2] \<and> isdecimal d1 \<and> isdecimal d2"
proof -
  from assms obtain k where k: "amount_tail (drop k a)"
    unfolding amount_shape_def by blast
  from amount_tail_end [OF k] obtain p d1 d2 where
    t: "drop k a = p @ [COMMA, d1, d2]" "isdecimal d1" "isdecimal d2" by blast
  have "a = take k a @ drop k a" by simp
  then have "a = (take k a @ p) @ [COMMA, d1, d2]" using t(1) by simp
  then show ?thesis using t(2,3) by blast
qed

lemma amount_shape_chars:
  assumes "amount_shape a"
  shows "a \<noteq> [] \<and> isdecimal (hd a) \<and> (\<forall>x \<in> set a. \<not> isspace x)"
proof -
  from assms obtain k where k: "k \<in> {1, 2, 3}" "k \<le> length a" "list_all isdecimal (take k a)"
      "amount_tail (drop k a)"
    unfolding amount_shape_def by blast
  have ne: "a \<noteq> []" using k(1,2) by auto
  have "take k a \<noteq> []" using k(1) ne by auto
  then have "hd (take k a) \<in> set (take k a)" by (rule hd_in_set)
  then have h: "isdecimal (hd (take k a))" using k(3) by (simp add: list_all_iff)
  have "hd (take k a) = hd a" using k(1) by (auto simp: hd_take)
  then have 1: "isdecimal (hd a)" using h by simp
  have "\<forall>x \<in> set (take k a). \<not> isspace x"
    using k(3) isdecimal_not_sep by (auto simp: list_all_iff)
  moreover note amount_tail_chars [OF k(4)]
  moreover have "set a = set (take k a) \<union> set (drop k a)"
    using set_append [of "take k a" "drop k a"] by simp
  ultimately have 2: "\<forall>x \<in> set a. \<not> isspace x" by blast
  from ne 1 2 show ?thesis by blast
qed

lemma trailing_token_append:
  assumes "w \<noteq> []" "list_all isspace w" "\<forall>x \<in> set a. \<not> isspace x"
  shows "trailing_token (p @ w @ a) = a"
proof -
  have "rev w \<noteq> []" using assms(1) by simp
  then obtain x xs where x: "rev w = x # xs" by (cases "rev w") auto
  then have "x \<in> set w" by (metis list.set_intros(1) set_rev)
  then have sx: "isspace x" using assms(2) by (simp add: list_all_iff)
  have "rev (p @ w @ a) = rev a @ x # (xs @ rev p)" using x by simp
  moreover have "takeWhile (\<lambda>x. \<not> isspace x) (rev a @ x # (xs @ rev p)) = rev a"
    using sx assms(3) by (simp add: takeWhile_tail)
  ultimately show ?thesis by (simp add: trailing_token_def)
qed

lemma match_trailing_token:
  assumes "re_match data_pattern s = Some m" "s = [] \<or> last s \<noteq> NEWLINE"
  shows "trailing_token s = m 3 \<and> amount_shape (m 3)"
proof -
  from match_sound_text [OF assms] obtain c w1 d w2 a where
    t: "s = c @ w1 @ d @ w2 @ a" "w2 \<noteq> []" "list_all isspace w2" "amount_shape a" "m 3 = a"
    by blast
  have "s = (c @ w1 @ d) @ w2 @ a" using t(1) by simp
  moreover have "trailing_token ((c @ w1 @ d) @ w2 @ a) = a"
    using t(2,3) amount_shape_chars [OF t(4)] by (intro trailing_token_append) simp_all
  ultimately show ?thesis using t(4,5) by simp
qed

lemma match_matches_pattern:
  assumes "re_match data_pattern s = Some m" "s = [] \<or> last s \<noteq> NEWLINE"
  shows "matches_pattern s"
proof -
  from match_sound_text [OF assms] obtain c w1 d w2 a where
    "s = c @ w1 @ d @ w2 @ a \<and> c \<noteq> [] \<and> list_all (\<lambda>x. \<not> isspace x) c \<and> w1 \<noteq> [] \<and>
     list_all isspace w1 \<and> w2 \<noteq> [] \<and> list_all isspace w2 \<and> amount_shape a"
    by blast
  then show ?thesis unfolding matches_pattern_def by blast
qed

lemma matches_pattern_end:
  assumes "matches_pattern s"
  shows "\<exists>p d1 d2. s = p @ [COMMA, d1, d2] \<and> isdecimal d1 \<and> isdecimal d2"
proof -
  from assms obtain q a where a: "s = q @ a" "amount_shape a"
    unfolding matches_pattern_def by (metis append.assoc)
  from amount_shape_end [OF a(2)] obtain p d1 d2 where
    "a = p @ [COMMA, d1, d2]" "isdecimal d1" "isdecimal d2" by blast
  then have "s = (q @ p) @ [COMMA, d1, d2] \<and> isdecimal d1 \<and> isdecimal d2"
    using a(1) by simp
  then show ?thesis by blast
qed

lemma not_matches_one_fraction_digit: "suffix (ustr ''12,5'') s \<Longrightarrow> \<not> matches_pattern s"
proof
  assume a: "suffix (ustr ''12,5'') s" "matches_pattern s"
  from a(1) obtain q where q: "s = q @ ustr ''12,5''" by (auto simp: suffix_def)
  from matches_pattern_end [OF a(2)] obtain p d1 d2 where
    p: "s = p @ [COMMA, d1, d2]" by blast
  have "(q @ ustr ''1'') @ [50, COMMA, 53] = p @ [COMMA, d1, d2]"
    using q p by simp
  then have "[50, COMMA, 53] = [COMMA, d1, d2]"
    by (metis append_eq_append_conv length_Cons)
  then show False by simp
qed

lemma not_matches_last: "s \<noteq> [] \<Longrightarrow> \<not> isdecimal (last s) \<Longrightarrow> \<not> matches_pattern s"
proof
  assume a: "s \<noteq> []" "\<not> isdecimal (last s)" "matches_pattern s"
  from matches_pattern_end [OF a(3)] obtain p d1 d2 where
    p: "s = p @ [COMMA, d1, d2]" "isdecimal d2" by blast
  then have "last s = d2" by simp
  then show False using a(2) p(2) by simp
qed

lemma no_match_no_record:
  assumes "\<not> matches_pattern c" "c = [] \<or> last c \<noteq> NEWLINE"
  shows "record_extractor n c = ([], [])"
proof (cases "re_match data_pattern c")
  case None
  then show ?thesis by (rule record_extractor_no_match)
next
  case (Some m)
  from match_matches_pattern [OF this assms(2)] assms(1) show ?thesis by simp
qed

text \<open>
  C6. A trimmed line that does not match the pattern as the specification words it
  yields no row and no message. In particular a line that ends in \<^verbatim>\<open>12,5\<close>, and a line
  whose last character is not a digit, yield no row and no message.
\<close>
theorem no_match_is_silent:
  "(\<not> matches_pattern (strip line) \<longrightarrow> record_extractor n (strip line) = ([], [])) \<and>
   (suffix (ustr ''12,5'') c \<longrightarrow> record_extractor n c = ([], [])) \<and>
   (c \<noteq> [] \<and> \<not> isdecimal (last c) \<and> last c \<noteq> NEWLINE \<longrightarrow> record_extractor n c = ([], []))"
proof -
  have 1: "record_extractor n (strip line) = ([], [])" if "\<not> matches_pattern (strip line)"
    using that strip_no_newline_end [of line] by (rule no_match_no_record)
  have 2: "record_extractor n c = ([], [])" if "suffix (ustr ''12,5'') c"
  proof -
    from that obtain q where "c = q @ ustr ''12,5''" by (auto simp: suffix_def)
    then have "last c \<noteq> NEWLINE" by simp
    with not_matches_one_fraction_digit [OF that] show ?thesis
      by (intro no_match_no_record) simp_all
  qed
  have 3: "record_extractor n c = ([], [])"
    if "c \<noteq> [] \<and> \<not> isdecimal (last c) \<and> last c \<noteq> NEWLINE"
    using that not_matches_last [of c] by (intro no_match_no_record) simp_all
  from 1 2 3 show ?thesis by blast
qed

theorem no_match_is_silent_witness:
  "record_extractor 4 (ustr ''3.1.1.1.01.05 DESCONTO 12,5'') = ([], []) \<and>
   record_extractor 4 (ustr ''3.1.1.1.01.05 DESCONTO X,XX'') = ([], []) \<and>
   record_extractor 4 (strip (ustr '' 3.1.1.1.01.05 DESCONTO X,XX '')) = ([], [])"
proof -
  have s: "strip (ustr '' 3.1.1.1.01.05 DESCONTO X,XX '') = ustr ''3.1.1.1.01.05 DESCONTO X,XX''"
    by (simp add: strip_def isspace_def)
  have a: "suffix (ustr ''12,5'') (ustr ''3.1.1.1.01.05 DESCONTO 12,5'')"
    by (simp add: suffix_def)
  have b: "ustr ''3.1.1.1.01.05 DESCONTO X,XX'' \<noteq> [] \<and>
      \<not> isdecimal (last (ustr ''3.1.1.1.01.05 DESCONTO X,XX'')) \<and>
      last (ustr ''3.1.1.1.01.05 DESCONTO X,XX'') \<noteq> NEWLINE"
    by (simp add: isdecimal_ascii)
  have c: "\<not> matches_pattern (strip (ustr '' 3.1.1.1.01.05 DESCONTO X,XX ''))"
    unfolding s using b by (intro not_matches_last) simp_all
  from no_match_is_silent [of "ustr '' 3.1.1.1.01.05 DESCONTO X,XX ''" 4 "ustr ''3.1.1.1.01.05 DESCONTO 12,5''"]
    no_match_is_silent [of "ustr '' 3.1.1.1.01.05 DESCONTO X,XX ''" 4 "ustr ''3.1.1.1.01.05 DESCONTO X,XX''"]
    a b c
  show ?thesis by blast
qed

lemma record_extractor_nonneg:
  "\<forall>row \<in> set (fst (record_extractor n c)). nonneg (snd (snd row))"
  using record_extractor_cases [of n c] nonneg_binary64 by auto

lemma process_line_rows:
  "extracted_data (process_line st l) = extracted_data st @
     (case section_scanner (in_data_section st) l of
        Candidate c \<Rightarrow> fst (record_extractor (line_number st + 1) c)
      | _ \<Rightarrow> [])"
  by (simp add: process_line_def Let_def split: scanned.splits prod.splits)

lemma process_line_nonneg:
  assumes "\<forall>row \<in> set (extracted_data st). nonneg (snd (snd row))"
  shows "\<forall>row \<in> set (extracted_data (process_line st l)). nonneg (snd (snd row))"
proof (cases "section_scanner (in_data_section st) l")
  case (Candidate c)
  have "set (extracted_data (process_line st l)) =
      set (extracted_data st) \<union> set (fst (record_extractor (line_number st + 1) c))"
    unfolding process_line_rows Candidate by simp
  then show ?thesis
    using assms record_extractor_nonneg [of "line_number st + 1" c] by blast
next
  case SectionStart
  then show ?thesis using assms unfolding process_line_rows by simp
next
  case Discarded
  then show ?thesis using assms unfolding process_line_rows by simp
qed

lemma process_lines_nonneg:
  "\<forall>row \<in> set (extracted_data st). nonneg (snd (snd row)) \<Longrightarrow>
   \<forall>row \<in> set (extracted_data (process_lines st ls)). nonneg (snd (snd row))"
  unfolding process_lines_def
proof (induction ls arbitrary: st)
  case Nil
  then show ?case by simp
next
  case (Cons l ls)
  from Cons.IH [OF process_line_nonneg [OF Cons.prems]] show ?case by simp
qed

lemma minus_token_no_record:
  assumes "trailing_token (strip line) \<noteq> []" "hd (trailing_token (strip line)) = MINUS"
  shows "record_extractor n (strip line) = ([], [])"
proof (cases "re_match data_pattern (strip line)")
  case None
  then show ?thesis by (rule record_extractor_no_match)
next
  case (Some m)
  from match_trailing_token [OF Some strip_no_newline_end]
  have "trailing_token (strip line) = m 3" "amount_shape (m 3)" by simp_all
  then have "isdecimal (hd (trailing_token (strip line)))"
    using amount_shape_chars [of "m 3"] by simp
  then show ?thesis
    using assms(2) isdecimal_not_sep [of "MINUS"] by simp
qed

lemma process_line_silent:
  assumes "record_extractor (line_number st + 1) (strip l) = ([], [])"
  shows "extracted_data (process_line st l) = extracted_data st \<and>
     (\<not> is_header (strip l) \<longrightarrow> info_messages (process_line st l) = info_messages st)"
  using assms by (auto simp: process_line_def section_scanner_def Let_def)

text \<open>
  C9. No row has a negative amount: every row the extractor emits, and so every row
  collected over a document, carries a float that is zero, positive or infinite. A line
  whose last token begins with \<open>-\<close> yields no row. The conversion itself reads a sign
  (\<open>negative_amount_text\<close> below); it is the pattern that admits none.
\<close>
theorem amounts_never_negative:
  "(\<forall>row \<in> set (fst (record_extractor n c)). nonneg (snd (snd row))) \<and>
   (\<forall>row \<in> set (extracted_data (process_lines (initial_state msgs) lines)). nonneg (snd (snd row))) \<and>
   (trailing_token (strip line) \<noteq> [] \<and> hd (trailing_token (strip line)) = MINUS \<longrightarrow>
      fst (record_extractor n (strip line)) = [] \<and>
      extracted_data (process_line st line) = extracted_data st)"
proof -
  have "\<forall>row \<in> set (extracted_data (initial_state msgs)). nonneg (snd (snd row))"
    by (simp add: initial_state_def)
  then have 2: "\<forall>row \<in> set (extracted_data (process_lines (initial_state msgs) lines)).
      nonneg (snd (snd row))"
    by (rule process_lines_nonneg)
  have 3: "fst (record_extractor n (strip line)) = [] \<and>
      extracted_data (process_line st line) = extracted_data st"
    if "trailing_token (strip line) \<noteq> [] \<and> hd (trailing_token (strip line)) = MINUS"
    using that minus_token_no_record [of line] process_line_silent [of st line] by simp
  from record_extractor_nonneg [of n c] 2 3 show ?thesis by blast
qed

lemma negative_amount_text:
  "amount_parser (ustr ''-1,00'') = Inr (Finite (- 1)) \<and> \<not> nonneg (Finite (- 1))"
  by (simp add: amount_parser_def replace_def float_eval nonneg_def)

theorem amounts_never_negative_witness:
  "fst (record_extractor 2 (strip (ustr ''ABC DESC -1,00''))) = [] \<and>
   fst (record_extractor 2 (strip (ustr ''-1,00''))) = [] \<and>
   list_all (\<lambda>row. nonneg (snd (snd row)))
     (extracted_data (process_lines (initial_state [])
        [ustr ''CLSF.CONTABIL DENOMINACAO / RUBRICA'', ustr ''ABC DESC 1,00'', ustr ''ABC DESC -1,00'']))"
proof -
  have a: "strip (ustr ''ABC DESC -1,00'') = ustr ''ABC DESC -1,00''" "strip (ustr ''-1,00'') = ustr ''-1,00''"
    by (simp_all add: strip_def isspace_def)
  have b: "trailing_token (ustr ''ABC DESC -1,00'') = ustr ''-1,00''" "trailing_token (ustr ''-1,00'') = ustr ''-1,00''"
    by (simp_all add: trailing_token_def isspace_def)
  from amounts_never_negative [of 2 "[]" "[]"
      "[ustr ''CLSF.CONTABIL DENOMINACAO / RUBRICA'', ustr ''ABC DESC 1,00'', ustr ''ABC DESC -1,00'']"
      "ustr ''ABC DESC -1,00''" "initial_state []"]
    amounts_never_negative [of 2 "[]" "[]" "[]" "ustr ''-1,00''" "initial_state []"]
  show ?thesis
    unfolding a b list_all_iff by simp
qed

lemma takeWhile_before:
  assumes "list_all P xs" "ys \<noteq> []" "\<not> P (hd ys)"
  shows "takeWhile P (xs @ ys) = xs"
proof -
  obtain y ys' where y: "ys = y # ys'" using assms(2) by (cases ys) auto
  then have "\<not> P y" using assms(3) by simp
  then show ?thesis
    unfolding y using assms(1) by (simp add: takeWhile_tail list_all_iff)
qed

lemma amount_shape_last: "amount_shape a \<Longrightarrow> a \<noteq> [] \<and> last a \<noteq> NEWLINE"
proof -
  assume "amount_shape a"
  from amount_shape_end [OF this] obtain p d1 d2 where
    "a = p @ [COMMA, d1, d2]" "isdecimal d2" by blast
  then show ?thesis using isdecimal_not_sep [of d2] by (auto simp: isspace_def)
qed

lemma token_line_match:
  assumes "c \<noteq> []" "list_all (\<lambda>x. \<not> isspace x) c" "w \<noteq> []" "list_all isspace w" "amount_shape a"
    "re_match data_pattern (c @ w @ a) = Some m"
  shows "m 1 = c \<and> m 3 = a \<and> strip (m 2) = [] \<and> 2 \<le> length w"
proof -
  let ?s = "c @ w @ a"
  have la: "a \<noteq> []" "last a \<noteq> NEWLINE" using amount_shape_last [OF assms(5)] by simp_all
  then have nl: "?s = [] \<or> last ?s \<noteq> NEWLINE" by simp
  from match_sound_text [OF assms(6) nl] obtain c' w1 d w2 a' where
    t: "?s = c' @ w1 @ d @ w2 @ a'" "c' \<noteq> []" "list_all (\<lambda>x. \<not> isspace x) c'"
      "w1 \<noteq> []" "list_all isspace w1" "w2 \<noteq> []" "list_all isspace w2" "amount_shape a'"
      "m 1 = c'" "m 2 = d" "m 3 = a'"
    by blast
  have hw: "isspace (hd w)" using assms(3,4) by (cases w) simp_all
  have hw1: "isspace (hd w1)" using t(4,5) by (cases w1) simp_all
  have "takeWhile (\<lambda>x. \<not> isspace x) (c @ (w @ a)) = c"
    using assms(2) by (rule takeWhile_before) (use assms(3) hw in simp_all)
  moreover have "takeWhile (\<lambda>x. \<not> isspace x) (c' @ (w1 @ d @ w2 @ a')) = c'"
    using t(3) by (rule takeWhile_before) (use t(4) hw1 in simp_all)
  ultimately have c: "c' = c" using t(1) by simp
  have "trailing_token ?s = a"
    using assms(3,4) amount_shape_chars [OF assms(5)] by (intro trailing_token_append) simp_all
  moreover have "trailing_token ?s = m 3"
    using match_trailing_token [OF assms(6) nl] by simp
  ultimately have a: "a' = a" using t(11) by simp
  have "c @ w @ a = c @ (w1 @ d @ w2) @ a" using t(1) c a by simp
  then have w: "w = w1 @ d @ w2" by simp
  then have "list_all isspace d" using assms(4) by simp
  then have "strip d = []" by (rule strip_blank)
  moreover have "2 \<le> length w"
    unfolding w using t(4,6) by (cases w1; cases w2) simp_all
  ultimately show ?thesis using c a t(9,10,11) by simp
qed

text \<open>
  C10. For a line made of a classification token, whitespace and an amount: with two or
  more whitespace characters one row is emitted and its description is empty; with
  exactly one, nothing is emitted.
\<close>
theorem empty_description:
  assumes "c \<noteq> []" "list_all (\<lambda>x. \<not> isspace x) c" "list_all isspace w" "amount_shape a"
  shows "(2 \<le> length w \<longrightarrow>
           (\<exists>v. amount_parser a = Inr v \<and> record_extractor n (c @ w @ a) = ([(c, [], v)], []))) \<and>
         (length w = 1 \<longrightarrow> record_extractor n (c @ w @ a) = ([], []))"
proof -
  have 1: "\<exists>v. amount_parser a = Inr v \<and> record_extractor n (c @ w @ a) = ([(c, [], v)], [])"
    if l: "2 \<le> length w"
  proof -
    have ne: "w \<noteq> []" "butlast w \<noteq> []" using l by (cases w; cases "tl w"; simp)+
    have w: "w = butlast w @ [last w]" using ne(1) by simp
    have sp: "list_all isspace (butlast w)" "list_all isspace [last w]"
      using assms(3) w by (metis list_all_append)+
    have "\<exists>m. re_match data_pattern (c @ butlast w @ [] @ [last w] @ a) = Some m"
      using assms(1,2) ne(2) sp(1) _ _ sp(2) assms(4) by (rule match_complete_text) simp_all
    then obtain m where m: "re_match data_pattern (c @ w @ a) = Some m"
      using w by (metis append_Nil append_assoc)
    from token_line_match [OF assms(1,2) ne(1) assms(3,4) m]
    have t: "m 1 = c" "m 3 = a" "strip (m 2) = []" by simp_all
    from record_extractor_match [OF m, of n] amount_parser_shape [OF assms(4)] t
    show ?thesis by simp
  qed
  have 2: "record_extractor n (c @ w @ a) = ([], [])" if l: "length w = 1"
  proof (cases "re_match data_pattern (c @ w @ a)")
    case None
    then show ?thesis by (rule record_extractor_no_match)
  next
    case (Some m)
    have "w \<noteq> []" using l by auto
    from token_line_match [OF assms(1,2) this assms(3,4) Some] l show ?thesis by simp
  qed
  from 1 2 show ?thesis by blast
qed

theorem empty_description_witness:
  "record_extractor 3 (ustr ''X  1.234,56'') =
     ([(ustr ''X'', [], Finite (2714826150374277 / 2199023255552))], []) \<and>
   record_extractor 3 (ustr ''X 1.234,56'') = ([], []) \<and>
   record_extractor 3 (ustr ''X'' @ [0x2003, 0x3000] @ ustr ''1.234,56'') =
     ([(ustr ''X'', [], Finite (2714826150374277 / 2199023255552))], []) \<and>
   record_extractor 3 (ustr ''X'' @ [0x2003] @ ustr ''1.234,56'') = ([], [])"
proof -
  have a: "ustr ''X'' \<noteq> []" "list_all (\<lambda>x. \<not> isspace x) (ustr ''X'')"
    "list_all isspace (ustr ''  '')" "list_all isspace (ustr '' '')"
    "list_all isspace [0x2003, 0x3000]" "list_all isspace [0x2003]"
    by (simp_all add: isspace_def)
  from empty_description [OF a(1,2,3) example_amount_shape, of 3]
    empty_description [OF a(1,2,4) example_amount_shape, of 3]
    empty_description [OF a(1,2,5) example_amount_shape, of 3]
    empty_description [OF a(1,2,6) example_amount_shape, of 3] example_amount
  show ?thesis by simp
qed

subsection \<open>Lines beyond Latin-1\<close>

text \<open>
  The classes of the pattern are the Unicode ones, so a line may use the digits and the
  blanks of any script. The line \<^verbatim>\<open>A B\<close> followed by 1,23 in Arabic-Indic digits yields a
  row with the float of 1.23. An EM SPACE separates like a space: \<^verbatim>\<open>X\<close>, EM SPACE,
  \<^verbatim>\<open>Y 1,00\<close> has the description \<^verbatim>\<open>Y\<close>, and in \<^verbatim>\<open>A -B\<close>, EM SPACE, \<^verbatim>\<open>1,00\<close> the last
  token is the amount.
\<close>

lemma unicode_lines:
  "record_extractor n [0x41, 0x20, 0x42, 0x20, 0x661, COMMA, 0x662, 0x663] =
     ([(ustr ''A'', ustr ''B'', Finite (2769713770832855 / 2251799813685248))], []) \<and>
   record_extractor n (ustr ''X'' @ [0x2003] @ ustr ''Y 1,00'') =
     ([(ustr ''X'', ustr ''Y'', Finite 1)], []) \<and>
   record_extractor n (ustr ''A -B'' @ [0x2003] @ ustr ''1,00'') =
     ([(ustr ''A'', ustr ''-B'', Finite 1)], []) \<and>
   trailing_token (ustr ''A -B'' @ [0x2003] @ ustr ''1,00'') = ustr ''1,00''"
proof -
  have 1: "record_extractor n [0x41, 0x20, 0x42, 0x20, 0x661, COMMA, 0x662, 0x663] =
     ([(ustr ''A'', ustr ''B'', Finite (2769713770832855 / 2251799813685248))], [])"
    by (simp add: extract_eval match_eval float_eval isdecimal_def decimal_def digit_zeros_def)
  have 2: "record_extractor n (ustr ''X'' @ [0x2003] @ ustr ''Y 1,00'') =
     ([(ustr ''X'', ustr ''Y'', Finite 1)], [])"
    by (simp add: extract_eval match_eval float_eval)
  have 3: "record_extractor n (ustr ''A -B'' @ [0x2003] @ ustr ''1,00'') =
     ([(ustr ''A'', ustr ''-B'', Finite 1)], [])"
    by (simp add: extract_eval match_eval float_eval)
  have 4: "trailing_token (ustr ''A -B'' @ [0x2003] @ ustr ''1,00'') = ustr ''1,00''"
    by (simp add: trailing_token_def isspace_def)
  from 1 2 3 4 show ?thesis by blast
qed

section \<open>The outcome\<close>

lemma process_lines_keeps_rows:
  "extracted_data (process_lines st ls1) \<noteq> [] \<Longrightarrow> extracted_data (process_lines st (ls1 @ ls2)) \<noteq> []"
  using process_lines_prefix [of "process_lines st ls1" ls2]
  by (auto simp: process_lines_append)

lemma two_blanks_example:
  "record_extractor n (ustr ''X  1.234,56'') = ([(ustr ''X'', [], Finite (2714826150374277 / 2199023255552))], [])"
proof -
  have a: "ustr ''X'' \<noteq> []" "list_all (\<lambda>x. \<not> isspace x) (ustr ''X'')" "list_all isspace (ustr ''  '')"
    by (simp_all add: isspace_def)
  have "record_extractor n (ustr ''X'' @ ustr ''  '' @ ustr ''1.234,56'') =
      ([(ustr ''X'', [], Finite (2714826150374277 / 2199023255552))], [])"
    using token_line_match [OF a(1,2) _ a(3) example_amount_shape]
      match_complete_text [of "ustr ''X''" "ustr '' ''" "[]" "ustr '' ''" "ustr ''1.234,56''"]
      record_extractor_match [of "ustr ''X'' @ ustr ''  '' @ ustr ''1.234,56''" _ n] example_amount
      amount_parser_shape [OF example_amount_shape] example_amount_shape
    by (auto simp: isspace_def)
  then show ?thesis by simp
qed

text \<open>
  C2. With \<open>st\<close> the state after the loop over the lines: when no row was collected the
  result is the failure with the no-data message and the whole log; when a row was
  collected and the DataFrame and the workbook are built, the result is the success with
  the workbook of exactly these rows and a log that extends the one collected. Whether
  rows exist is all that decides: further lines, whatever they are, never take a row
  away. For a document whose text has at least one line the function is \<open>process_text\<close>
  of its lines.
\<close>
theorem outcome_by_row_count:
  assumes "st = process_lines (initial_state msgs) lines"
  shows "(extracted_data st = [] \<longrightarrow>
            process_text dataframe to_excel lines msgs =
              (False, Inl msg_no_data, info_messages st @ [msg_no_data])) \<and>
         (extracted_data st \<noteq> [] \<and> dataframe (extracted_data st) = Inr df \<and> to_excel df = Inr excel_bytes \<longrightarrow>
            (\<exists>log. process_text dataframe to_excel lines msgs =
               (True, Inr excel_bytes, info_messages st @ log))) \<and>
         (extracted_data st \<noteq> [] \<longrightarrow>
            extracted_data (process_lines (initial_state msgs) (lines @ rest)) \<noteq> []) \<and>
         (extract_text pdf = Inr (lines, msgs) \<and> lines \<noteq> [] \<longrightarrow>
            processar_pdf_para_streamlit dataframe to_excel pdf =
              process_text dataframe to_excel lines msgs)"
proof -
  have 1: "process_text dataframe to_excel lines msgs =
      (False, Inl msg_no_data, info_messages st @ [msg_no_data])" if "extracted_data st = []"
    using that assms by (simp add: process_text_def)
  have 2: "\<exists>log. process_text dataframe to_excel lines msgs =
      (True, Inr excel_bytes, info_messages st @ log)"
    if "extracted_data st \<noteq> [] \<and> dataframe (extracted_data st) = Inr df \<and> to_excel df = Inr excel_bytes"
    using that assms by (simp add: process_text_def export_def Let_def)
  have 3: "extracted_data (process_lines (initial_state msgs) (lines @ rest)) \<noteq> []"
    if "extracted_data st \<noteq> []"
    using that assms process_lines_keeps_rows [of "initial_state msgs" lines rest] by simp
  have 4: "processar_pdf_para_streamlit dataframe to_excel pdf =
      process_text dataframe to_excel lines msgs"
    if "extract_text pdf = Inr (lines, msgs) \<and> lines \<noteq> []"
    using that by (simp add: processar_pdf_para_streamlit_def)
  from 1 2 3 4 show ?thesis by blast
qed

lemmas scan_eval = process_lines_def process_line_def section_scanner_def initial_state_def
  is_header_def is_structural_def contains_def startswith_def sublist_code strip_def isspace_def

lemma example_text_lines:
  "extract_text (Pages [Text (Some (ustr ''CLSF.CONTABIL DENOMINACAO / RUBRICA'' @ [NEWLINE] @ ustr ''X  1.234,56''))]) =
     Inr ([ustr ''CLSF.CONTABIL DENOMINACAO / RUBRICA'', ustr ''X  1.234,56''],
       [ustr ''--- Iniciando processamento do PDF ---'',
        (ustr ''--- Extraindo texto do PDF (pode levar um momento) ---''),
        ustr ''PDF cont'' @ [0xE9] @ ustr ''m 1 p'' @ [0xE1] @ ustr ''gina(s).'',
        ustr ''Processando p'' @ [0xE1] @ ustr ''gina 1/1...''])"
  by (simp add: extract_text_def str_nat.simps digit_char_def)

lemma example_rows:
  "extracted_data (process_lines (initial_state msgs)
     [ustr ''CLSF.CONTABIL DENOMINACAO / RUBRICA'', ustr ''X  1.234,56'']) =
   [(ustr ''X'', [], Finite (2714826150374277 / 2199023255552))]"
proof -
  have 1: "section_scanner False (ustr ''CLSF.CONTABIL DENOMINACAO / RUBRICA'') = SectionStart"
    by (simp add: section_scanner_def is_header_def contains_def sublist_code strip_def isspace_def)
  have 2: "section_scanner True (ustr ''X  1.234,56'') = Candidate (ustr ''X  1.234,56'')"
    by (simp add: section_scanner_def is_header_def is_structural_def contains_def startswith_def
        sublist_code strip_def isspace_def)
  have 3: "record_extractor n (ustr ''X  1.234,56'') =
      ([(ustr ''X'', [], Finite (2714826150374277 / 2199023255552))], [])" for n
    using two_blanks_example [of n] .
  show ?thesis
    using 1 2 3 by (simp add: process_lines_def process_line_def initial_state_def)
qed

theorem outcome_by_row_count_witness:
  "process_text (\<lambda>rows. Inr rows) (\<lambda>df. Inr (length df)) [] [] =
     (False, Inl msg_no_data, info_messages (process_lines (initial_state []) []) @ [msg_no_data]) \<and>
   (\<exists>log. processar_pdf_para_streamlit (\<lambda>rows. Inr rows) (\<lambda>df. Inr (length df))
       (Pages [Text (Some (ustr ''CLSF.CONTABIL DENOMINACAO / RUBRICA'' @ [NEWLINE] @ ustr ''X  1.234,56''))]) =
     (True, Inr (Suc 0), log))"
proof -
  let ?df = "\<lambda>rows :: row list. (Inr rows :: ustring + row list)"
  let ?xl = "\<lambda>df :: row list. (Inr (length df) :: ustring + nat)"
  let ?pdf = "Pages [Text (Some (ustr ''CLSF.CONTABIL DENOMINACAO / RUBRICA'' @ [NEWLINE] @ ustr ''X  1.234,56''))]"
  let ?lines = "[ustr ''CLSF.CONTABIL DENOMINACAO / RUBRICA'', ustr ''X  1.234,56'']"
  let ?msgs = "[ustr ''--- Iniciando processamento do PDF ---'',
        (ustr ''--- Extraindo texto do PDF (pode levar um momento) ---''),
        ustr ''PDF cont'' @ [0xE9] @ ustr ''m 1 p'' @ [0xE1] @ ustr ''gina(s).'',
        ustr ''Processando p'' @ [0xE1] @ ustr ''gina 1/1...'']"
  have e: "extracted_data (process_lines (initial_state []) []) = []"
    by (simp add: process_lines_def initial_state_def)
  from outcome_by_row_count [OF refl, of "[]" "[]" ?df ?xl "[]" 0 "[]" "Unreadable []"] e
  have 1: "process_text ?df ?xl [] [] =
     (False, Inl msg_no_data, info_messages (process_lines (initial_state []) []) @ [msg_no_data])"
    by blast
  from outcome_by_row_count [OF refl, of ?msgs ?lines ?df ?xl
      "[(ustr ''X'', [], Finite (2714826150374277 / 2199023255552))]" "Suc 0" "[]" ?pdf]
    example_rows [of ?msgs] example_text_lines
  have 2: "\<exists>log. processar_pdf_para_streamlit ?df ?xl ?pdf = (True, Inr (Suc 0), log)"
    by auto
  from 1 2 show ?thesis by blast
qed

section \<open>The round trip of amounts\<close>

subsection \<open>The exponent found by the conversion\<close>

lemma pow2_powi: "pow2 k = 2 powi k"
  by (cases "0 \<le> k") (simp_all add: pow2_def power_int_def field_simps)

lemma pow2_diff: "pow2 (k - int n) = pow2 k / 2 ^ n"
  by (simp add: pow2_powi power_int_diff)

lemma pow2_nonneg_nat: "pow2 (int n) = 2 ^ n"
  by (simp add: pow2_def)

lemma bit_length_bounds: "0 < n \<Longrightarrow> 2 ^ (bit_length n - 1) \<le> n \<and> n < 2 ^ bit_length n"
proof (induction n rule: bit_length.induct)
  case (1 n)
  show ?case
  proof (cases "n div 2 = 0")
    case True
    then have "n = 1" using "1.prems" by auto
    then show ?thesis by (simp add: bit_length.simps)
  next
    case False
    then have ih: "2 ^ (bit_length (n div 2) - 1) \<le> n div 2" "n div 2 < 2 ^ bit_length (n div 2)"
      using "1.IH" "1.prems" by simp_all
    have pos: "0 < bit_length (n div 2)"
      using False by (subst bit_length.simps) simp
    have b: "bit_length n = Suc (bit_length (n div 2))"
      using "1.prems" by (subst bit_length.simps) simp
    have "2 ^ (bit_length n - 1) = 2 * 2 ^ (bit_length (n div 2) - 1)"
      using pos b by (cases "bit_length (n div 2)") simp_all
    also have "\<dots> \<le> 2 * (n div 2)" using ih(1) by simp
    also have "\<dots> \<le> n" by simp
    finally have lo: "2 ^ (bit_length n - 1) \<le> n" .
    have "n < 2 * (n div 2) + 2" by presburger
    also have "\<dots> \<le> 2 * 2 ^ bit_length (n div 2)" using ih(2) by simp
    finally have "n < 2 ^ bit_length n" using b by simp
    with lo show ?thesis by simp
  qed
qed

lemma pow2_le_iff:
  assumes "0 < q"
  shows "pow2_le k p q \<longleftrightarrow> pow2 k \<le> of_nat p / of_nat q"
proof (cases "0 \<le> k")
  case True
  have "(of_nat q * 2 ^ nat k \<le> (of_nat p :: rat)) = (q * 2 ^ nat k \<le> p)"
    by (metis of_nat_le_iff of_nat_mult of_nat_numeral of_nat_power)
  then show ?thesis
    using True assms by (simp add: pow2_le_def pow2_def pos_le_divide_eq mult.commute)
next
  case False
  have "((of_nat q :: rat) \<le> of_nat p * 2 ^ nat (- k)) = (q \<le> p * 2 ^ nat (- k))"
    by (metis of_nat_le_iff of_nat_mult of_nat_numeral of_nat_power)
  then show ?thesis
    using False assms by (simp add: pow2_le_def pow2_def field_simps)
qed

lemma of_nat_pow2_le: "2 ^ a \<le> (n::nat) \<Longrightarrow> (2::rat) ^ a \<le> of_nat n"
proof -
  assume "2 ^ a \<le> n"
  then have "(of_nat (2 ^ a) :: rat) \<le> of_nat n" by (simp only: of_nat_le_iff)
  then show ?thesis by simp
qed

lemma of_nat_le_pow2: "(n::nat) \<le> 2 ^ a \<Longrightarrow> (of_nat n :: rat) \<le> 2 ^ a"
proof -
  assume "n \<le> 2 ^ a"
  then have "(of_nat n :: rat) \<le> of_nat (2 ^ a)" by (simp only: of_nat_le_iff)
  then show ?thesis by simp
qed

lemma floor_log2_true: "pow2_le (int (bit_length p) - int (bit_length q)) p q \<Longrightarrow>
    floor_log2 p q = int (bit_length p) - int (bit_length q)"
  unfolding floor_log2_def Let_def by (rule if_P)

lemma floor_log2_false: "\<not> pow2_le (int (bit_length p) - int (bit_length q)) p q \<Longrightarrow>
    floor_log2 p q = int (bit_length p) - int (bit_length q) - 1"
  unfolding floor_log2_def Let_def by (rule if_not_P)

lemma bit_length_pos: "0 < n \<Longrightarrow> 0 < bit_length n"
  by (subst bit_length.simps) simp

lemma pow2_pred:
  assumes "0 < a"
  shows "pow2 (int a - int b - 1) = 2 ^ (a - 1) / 2 ^ b"
proof -
  have "int a - int b - 1 = int (a - 1) - int b" using assms by linarith
  then have "pow2 (int a - int b - 1) = pow2 (int (a - 1) - int b)" by (rule arg_cong)
  also have "\<dots> = pow2 (int (a - 1)) / 2 ^ b" by (rule pow2_diff)
  also have "pow2 (int (a - 1)) = 2 ^ (a - 1)" by (rule pow2_nonneg_nat)
  finally show ?thesis .
qed

lemma frac_mono:
  fixes a b c d :: rat
  assumes "a \<le> c" "0 < d" "d \<le> b" "0 \<le> a"
  shows "a / b \<le> c / d"
proof -
  have "a / b \<le> a / d" using assms by (intro divide_left_mono) simp_all
  also have "\<dots> \<le> c / d" using assms by (intro divide_right_mono) simp_all
  finally show ?thesis .
qed

lemma floor_log2_lower:
  assumes "0 < p" "0 < q"
  shows "pow2 (floor_log2 p q) \<le> of_nat p / of_nat q"
proof (cases "pow2_le (int (bit_length p) - int (bit_length q)) p q")
  case True
  show ?thesis
    unfolding floor_log2_true [OF True] using True pow2_le_iff [OF assms(2)] by blast
next
  case False
  have bp: "(2::rat) ^ (bit_length p - 1) \<le> of_nat p"
    using bit_length_bounds [OF assms(1)] by (intro of_nat_pow2_le) blast
  have "q \<le> 2 ^ bit_length q"
    using bit_length_bounds [OF assms(2)] by (intro less_imp_le) blast
  then have bq: "(of_nat q :: rat) \<le> 2 ^ bit_length q" by (rule of_nat_le_pow2)
  have q0: "(0::rat) < of_nat q" using assms(2) by (simp only: of_nat_0_less_iff)
  have "(2::rat) ^ (bit_length p - 1) / 2 ^ bit_length q \<le> of_nat p / of_nat q"
    using bp q0 bq by (rule frac_mono) simp
  then show ?thesis
    unfolding floor_log2_false [OF False] pow2_pred [OF bit_length_pos [OF assms(1)]] .
qed

lemma floor_log2_ge:
  assumes "0 < p" "0 < q"
  shows "- int (bit_length q) \<le> floor_log2 p q"
proof -
  have "0 < bit_length p" using assms(1) by (rule bit_length_pos)
  then show ?thesis
    using floor_log2_true [of p q] floor_log2_false [of p q] by linarith
qed

subsection \<open>Rounding to the nearest integer\<close>

lemma round_half_even_cases:
  "round_half_even a b = a div b \<and> 2 * (a mod b) \<le> b \<or>
   round_half_even a b = a div b + 1 \<and> b \<le> 2 * (a mod b)"
  by (auto simp: round_half_even_def Let_def)

lemma div_mod_rat:
  assumes "0 < b"
  shows "(of_nat a :: rat) / of_nat b = of_nat (a div b) + of_nat (a mod b) / of_nat b"
proof -
  have "a = (a div b) * b + a mod b" by simp
  then have "(of_nat a :: rat) = of_nat ((a div b) * b + a mod b)" by (rule arg_cong)
  then have "(of_nat a :: rat) = of_nat (a div b) * of_nat b + of_nat (a mod b)"
    by (simp only: of_nat_add of_nat_mult)
  then show ?thesis using assms by (simp add: field_simps)
qed

lemma round_half_even_error:
  assumes "0 < b"
  shows "\<bar>of_nat (round_half_even a b) - (of_nat a :: rat) / of_nat b\<bar> \<le> 1 / 2"
proof -
  let ?r = "(of_nat (a mod b) :: rat) / of_nat b"
  have b0: "(0::rat) < of_nat b" using assms by simp
  have r0: "0 \<le> ?r" by simp
  have r1: "?r < 1" using assms b0 by (simp add: divide_less_eq)
  from round_half_even_cases [of a b] show ?thesis
  proof
    assume c: "round_half_even a b = a div b \<and> 2 * (a mod b) \<le> b"
    then have "(of_nat (2 * (a mod b)) :: rat) \<le> of_nat b" by (simp only: of_nat_le_iff)
    then have "?r \<le> 1 / 2" using b0 by (simp add: field_simps)
    then show ?thesis
      unfolding div_mod_rat [OF assms, of a] using c r0 by simp
  next
    assume c: "round_half_even a b = a div b + 1 \<and> b \<le> 2 * (a mod b)"
    then have "(of_nat b :: rat) \<le> of_nat (2 * (a mod b))" by (simp only: of_nat_le_iff)
    then have "1 / 2 \<le> ?r" using b0 by (simp add: field_simps)
    then show ?thesis
      unfolding div_mod_rat [OF assms, of a] using c r1 by simp
  qed
qed

lemma round_half_even_nearest:
  assumes "0 < b" "\<bar>(of_nat a :: rat) / of_nat b - of_nat n\<bar> < 1 / 2"
  shows "round_half_even a b = n"
proof -
  let ?m = "round_half_even a b"
  have "\<bar>(of_nat ?m :: rat) - of_nat n\<bar> < 1"
    using round_half_even_error [OF assms(1), of a] assms(2) by linarith
  then have "\<bar>(of_int (int ?m - int n) :: rat)\<bar> < of_int 1" by simp
  then have "\<bar>int ?m - int n\<bar> < 1"
    by (metis of_int_abs of_int_less_iff)
  then show ?thesis by linarith
qed

lemma cents_nearest:
  assumes "0 \<le> v" "\<bar>v * 100 - of_nat n\<bar> < 1 / 2"
  shows "cents v = n"
proof -
  obtain a b where q: "quotient_of (v * 100) = (a, b)" by (cases "quotient_of (v * 100)")
  have b: "0 < b" using q by (rule quotient_of_denom_pos)
  have v: "v * 100 = of_int a / of_int b" using q by (rule quotient_of_div)
  have "0 \<le> (of_int a :: rat) / of_int b" using assms(1) v by simp
  then have a: "0 \<le> a" using b by (simp add: zero_le_divide_iff)
  have "(of_nat (nat a) :: rat) / of_nat (nat b) = v * 100"
    using a b v by simp
  then have "round_half_even (nat a) (nat b) = n"
    using assms(2) b by (intro round_half_even_nearest) simp_all
  then show ?thesis by (simp add: cents_def q)
qed

subsection \<open>The error of the conversion\<close>

lemma scaled_error:
  fixes x s :: rat
  assumes "0 < s" "\<bar>m - x / s\<bar> \<le> 1 / 2"
  shows "\<bar>m * s - x\<bar> \<le> s / 2"
proof -
  have "m * s - x = (m - x / s) * s" using assms(1) by (simp add: field_simps)
  then have "\<bar>m * s - x\<bar> = \<bar>m - x / s\<bar> * s"
    using assms(1) by (simp add: abs_mult)
  also have "\<dots> \<le> (1 / 2) * s"
    using assms by (intro mult_right_mono) simp_all
  finally show ?thesis by simp
qed

lemma mantissa_error:
  assumes "0 < q"
  shows "\<bar>of_nat (if 0 \<le> e then round_half_even p (q * 2 ^ nat e)
                  else round_half_even (p * 2 ^ nat (- e)) q) * pow2 e -
          of_nat p / of_nat q\<bar> \<le> pow2 e / 2"
proof (cases "0 \<le> e")
  case True
  have b: "0 < q * 2 ^ nat e" using assms by simp
  have pe: "pow2 e = 2 ^ nat e" using True by (simp add: pow2_def)
  have eq: "(of_nat p :: rat) / of_nat (q * 2 ^ nat e) = (of_nat p / of_nat q) / pow2 e"
    unfolding pe by simp
  have "\<bar>of_nat (round_half_even p (q * 2 ^ nat e)) - (of_nat p / of_nat q) / pow2 e\<bar> \<le> 1 / 2"
    using round_half_even_error [OF b, of p] unfolding eq .
  from scaled_error [OF pow2_pos this] show ?thesis using True by simp
next
  case False
  have pe: "pow2 e = 1 / 2 ^ nat (- e)" using False by (simp add: pow2_def)
  have eq: "(of_nat (p * 2 ^ nat (- e)) :: rat) / of_nat q = (of_nat p / of_nat q) / pow2 e"
    unfolding pe by simp
  have "\<bar>of_nat (round_half_even (p * 2 ^ nat (- e)) q) - (of_nat p / of_nat q) / pow2 e\<bar> \<le> 1 / 2"
    using round_half_even_error [OF assms, of "p * 2 ^ nat (- e)"] unfolding eq .
  from scaled_error [OF pow2_pos this] show ?thesis using False by simp
qed

lemma pow2_mono: "a \<le> b \<Longrightarrow> pow2 a \<le> pow2 b"
  unfolding pow2_powi by (rule power_int_increasing) simp_all

lemma floor_log2_less:
  assumes "0 < p" "0 < q" "(of_nat p :: rat) / of_nat q < 2 ^ k"
  shows "floor_log2 p q < int k"
proof (rule ccontr)
  assume "\<not> floor_log2 p q < int k"
  then have "pow2 (int k) \<le> pow2 (floor_log2 p q)" by (intro pow2_mono) simp
  also have "\<dots> \<le> of_nat p / of_nat q" using assms(1,2) by (rule floor_log2_lower)
  finally show False using assms(3) by (simp add: pow2_nonneg_nat)
qed

lemma binary64_close:
  assumes "0 < p" "0 < q" "- 1074 \<le> floor_log2 p q - 52"
    "(of_nat p :: rat) / of_nat q < 2 ^ 1023"
  shows "\<exists>v. binary64 p q = Finite v \<and> 0 \<le> v \<and>
           \<bar>v - of_nat p / of_nat q\<bar> \<le> pow2 (floor_log2 p q - 52) / 2"
proof -
  define x :: rat where "x = of_nat p / of_nat q"
  define e where "e = floor_log2 p q - 52"
  define m where "m = (if 0 \<le> e then round_half_even p (q * 2 ^ nat e)
                  else round_half_even (p * 2 ^ nat (- e)) q)"
  define v where "v = of_nat m * pow2 e"
  have x0: "0 < x" using assms(1,2) by (simp add: x_def)
  have me: "max (floor_log2 p q - 52) (- 1074) = e"
    using assms(3) by (simp add: e_def)
  have "pow2 e = pow2 (floor_log2 p q) / 2 ^ 52"
    unfolding e_def using pow2_diff [of "floor_log2 p q" 52] by simp
  also have "\<dots> \<le> x / 2 ^ 52"
    unfolding x_def using floor_log2_lower [OF assms(1,2)] by (simp add: divide_right_mono)
  finally have pe: "pow2 e \<le> x / 2 ^ 52" .
  have abs: "\<bar>v - x\<bar> \<le> pow2 e / 2"
    unfolding v_def m_def x_def using assms(2) by (rule mantissa_error)
  also have "\<dots> \<le> (x / 2 ^ 52) / 2" using pe by simp
  also have "\<dots> = x / 2 ^ 53" by simp
  finally have err: "\<bar>v - x\<bar> \<le> x / 2 ^ 53" .
  have "x / 2 ^ 53 \<le> x" using x0 by (simp add: field_simps)
  then have "v \<le> 2 * x" using err by linarith
  also have "\<dots> < 2 * 2 ^ 1023" using assms(4) by (simp add: x_def)
  also have "\<dots> = pow2 1024" by (simp add: pow2_def)
  finally have lt: "\<not> pow2 1024 \<le> v" by simp
  have v0: "0 \<le> v" unfolding v_def using pow2_pos [of e] by simp
  have "binary64 p q = Finite v"
    using assms(1) lt by (simp add: binary64_def me Let_def m_def [symmetric] v_def [symmetric])
  then show ?thesis using abs v0 unfolding x_def e_def by blast
qed

lemma bit_length_100: "bit_length 100 = 7"
  by (simp add: bit_length_numeral bit_length_1)

lemma binary64_cents:
  assumes "n < 100 * 2 ^ 46"
  shows "\<exists>v. binary64 n 100 = Finite v \<and> 0 \<le> v \<and> cents v = n"
proof (cases "n = 0")
  case True
  have "cents 0 = 0" by (simp add: cents_def round_half_even_def)
  then show ?thesis using True by (simp add: binary64_def)
next
  case False
  then have p: "0 < n" by simp
  have q: "0 < (100::nat)" by simp
  have l: "- 1074 \<le> floor_log2 n 100 - 52"
    using floor_log2_ge [OF p q] by (simp add: bit_length_100)
  have "(of_nat n :: rat) < of_nat (100 * 2 ^ 46)" using assms by (simp only: of_nat_less_iff)
  then have x46: "(of_nat n :: rat) / of_nat 100 < 2 ^ 46" by simp
  then have "(of_nat n :: rat) / of_nat 100 < 2 ^ 1023" by simp
  from binary64_close [OF p q l this] obtain v where
    v: "binary64 n 100 = Finite v" "0 \<le> v"
      "\<bar>v - of_nat n / of_nat 100\<bar> \<le> pow2 (floor_log2 n 100 - 52) / 2"
    by blast
  have "floor_log2 n 100 < int 46" using p q x46 by (rule floor_log2_less)
  then have "pow2 (floor_log2 n 100 - 52) \<le> pow2 (- 7)" by (intro pow2_mono) simp
  also have "\<dots> = 1 / 128" by (simp add: pow2_def)
  finally have e: "\<bar>v - of_nat n / of_nat 100\<bar> \<le> 1 / 256" using v(3) by simp
  have "v * 100 - of_nat n = 100 * (v - of_nat n / of_nat 100)" by simp
  then have "\<bar>v * 100 - of_nat n\<bar> = \<bar>100 * (v - of_nat n / of_nat 100)\<bar>" by (rule arg_cong)
  also have "\<dots> = 100 * \<bar>v - of_nat n / of_nat 100\<bar>" by (simp only: abs_mult abs_numeral)
  also have "\<dots> \<le> 100 * (1 / 256)"
    using e by (intro mult_left_mono) simp_all
  also have "\<dots> < 1 / 2" by simp
  finally have "\<bar>v * 100 - of_nat n\<bar> < 1 / 2" .
  from cents_nearest [OF v(2) this] v(1,2) show ?thesis by blast
qed

subsection \<open>Digits and their value\<close>

lemma isdecimal_ascii_digit: "isdecimal c \<Longrightarrow> c < 128 \<Longrightarrow> ascii_digit c"
  by (simp add: isdecimal_ascii ascii_digit_def)

lemma ascii_digit_cases:
  "ascii_digit c \<Longrightarrow> c = 48 \<or> c = 49 \<or> c = 50 \<or> c = 51 \<or> c = 52 \<or> c = 53 \<or> c = 54 \<or>
     c = 55 \<or> c = 56 \<or> c = 57"
  unfolding ascii_digit_def by presburger

lemma digit_roundtrip:
  assumes "ascii_digit c"
  shows "digit_of c < 10 \<and> digit_char (digit_of c) = c \<and> (c \<noteq> 48 \<longrightarrow> 0 < digit_of c)"
  using ascii_digit_cases [OF assms] by (auto simp: digit_of_ascii digit_char_def)

lemma digits_value_snoc: "digits_value (xs @ [c]) = 10 * digits_value xs + digit_of c"
  by (simp add: digits_value_def)

lemma digits_value_Nil: "digits_value [] = 0"
  by (simp add: digits_value_def)

lemma digits_value_single: "digits_value [c] = digit_of c"
  by (simp add: digits_value_def)

lemma digits_value_pos:
  "ds \<noteq> [] \<Longrightarrow> list_all ascii_digit ds \<Longrightarrow> hd ds \<noteq> 48 \<Longrightarrow> 0 < digits_value ds"
proof (induction ds rule: rev_induct)
  case Nil
  then show ?case by simp
next
  case (snoc c ds)
  show ?case
  proof (cases "ds = []")
    case True
    then have "0 < digit_of c" using snoc.prems digit_roundtrip [of c] by simp
    then show ?thesis using True by (simp add: digits_value_single)
  next
    case False
    then have "0 < digits_value ds" using snoc by simp
    then show ?thesis by (simp add: digits_value_snoc)
  qed
qed

lemma str_nat_digits:
  "ds \<noteq> [] \<Longrightarrow> list_all ascii_digit ds \<Longrightarrow> hd ds \<noteq> 48 \<or> ds = [48] \<Longrightarrow>
     str_nat (digits_value ds) = ds"
proof (induction ds rule: rev_induct)
  case Nil
  then show ?case by simp
next
  case (snoc c ds)
  have c: "digit_of c < 10" "digit_char (digit_of c) = c"
    using snoc.prems(2) digit_roundtrip [of c] by simp_all
  show ?case
  proof (cases "ds = []")
    case True
    then have "digits_value (ds @ [c]) = digit_of c"
      by (simp add: digits_value_single)
    then show ?thesis using c True by (subst str_nat.simps) simp
  next
    case False
    then have h: "hd ds \<noteq> 48" using snoc.prems(3) by auto
    have d: "list_all ascii_digit ds" using snoc.prems(2) by simp
    have ih: "str_nat (digits_value ds) = ds" using snoc.IH False d h by simp
    have pos: "0 < digits_value ds" using False d h by (rule digits_value_pos)
    let ?n = "10 * digits_value ds + digit_of c"
    have "\<not> ?n < 10" using pos by simp
    moreover have "?n div 10 = digits_value ds" using c(1) by simp
    moreover have "?n mod 10 = digit_of c" using c(1) by simp
    ultimately have "str_nat ?n = str_nat (digits_value ds) @ [digit_char (digit_of c)]"
      by (subst str_nat.simps) simp
    then show ?thesis using ih c(2) by (simp add: digits_value_snoc)
  qed
qed

lemma group3_short: "length ds \<le> 3 \<Longrightarrow> group3 ds = ds"
  by (subst group3.simps) simp

lemma group3_snoc3: "pre \<noteq> [] \<Longrightarrow> length e = 3 \<Longrightarrow> group3 (pre @ e) = group3 pre @ [DOT] @ e"
  by (subst group3.simps) (simp add: length_greater_0_conv [symmetric] del: length_greater_0_conv)

lemma group3_tail:
  "amount_tail t \<Longrightarrow> \<exists>ipt d1 d2. filter isdecimal t = ipt @ [d1, d2] \<and> list_all isdecimal ipt \<and>
      isdecimal d1 \<and> isdecimal d2 \<and>
      (\<forall>pre. pre \<noteq> [] \<longrightarrow> group3 (pre @ ipt) @ COMMA # [d1, d2] = group3 pre @ t)"
proof (induction t rule: amount_tail.induct)
  case (1 c d1 d2)
  then have c: "c = COMMA" "isdecimal d1" "isdecimal d2" by simp_all
  have nc: "\<not> isdecimal c" using isdecimal_not_sep [of c] c(1) by blast
  have "filter isdecimal [c, d1, d2] = [] @ [d1, d2] \<and> list_all isdecimal [] \<and>
      isdecimal d1 \<and> isdecimal d2 \<and>
      (\<forall>pre. pre \<noteq> [] \<longrightarrow> group3 (pre @ []) @ COMMA # [d1, d2] = group3 pre @ [c, d1, d2])"
    using c nc by simp
  then show ?case by blast
next
  case (2 c e1 e2 e3 rest)
  then have c: "c = DOT" "isdecimal e1" "isdecimal e2" "isdecimal e3" "amount_tail rest"
    by simp_all
  from "2.IH" [OF c(5)] obtain ipt d1 d2 where
    ih: "filter isdecimal rest = ipt @ [d1, d2]" "list_all isdecimal ipt" "isdecimal d1" "isdecimal d2"
      "\<And>pre. pre \<noteq> [] \<Longrightarrow> group3 (pre @ ipt) @ COMMA # [d1, d2] = group3 pre @ rest"
    by blast
  have nc: "\<not> isdecimal c" using isdecimal_not_sep [of c] c(1) by blast
  have 1: "filter isdecimal (c # e1 # e2 # e3 # rest) = ([e1, e2, e3] @ ipt) @ [d1, d2]"
    using nc c ih(1) by simp
  have 2: "list_all isdecimal ([e1, e2, e3] @ ipt)" using c ih(2) by simp
  have 3: "group3 (pre @ [e1, e2, e3] @ ipt) @ COMMA # [d1, d2] =
      group3 pre @ c # e1 # e2 # e3 # rest" if "pre \<noteq> []" for pre
  proof -
    have "group3 ((pre @ [e1, e2, e3]) @ ipt) @ COMMA # [d1, d2] =
        group3 (pre @ [e1, e2, e3]) @ rest"
      by (rule ih(5)) simp
    also have "group3 (pre @ [e1, e2, e3]) = group3 pre @ [DOT] @ [e1, e2, e3]"
      using that by (rule group3_snoc3) simp
    finally show ?thesis using c(1) by simp
  qed
  from 1 2 3 ih(3,4) show ?case by blast
qed simp_all

subsection \<open>Parsing and writing back\<close>

lemma amount_tail_comma_only:
  assumes "amount_tail (COMMA # rest)"
  shows "\<exists>d1 d2. rest = [d1, d2] \<and> isdecimal d1 \<and> isdecimal d2"
  using assms by (subst (asm) amount_tail_iff) (auto simp: length_Suc_conv numeral_2_eq_2)

lemma format_amount_digits:
  assumes "ascii_digit d1" "ascii_digit d2" "0 \<le> v" "cents v = digits_value (ip @ [d1, d2])"
  shows "format_amount (Finite v) = group3 (str_nat (digits_value ip)) @ COMMA # [d1, d2]"
proof -
  let ?n = "digits_value (ip @ [d1, d2])"
  have d: "digit_of d1 < 10" "digit_char (digit_of d1) = d1" "digit_of d2 < 10"
    "digit_char (digit_of d2) = d2"
    using digit_roundtrip [OF assms(1)] digit_roundtrip [OF assms(2)] by simp_all
  have s1: "digits_value ((ip @ [d1]) @ [d2]) = 10 * digits_value (ip @ [d1]) + digit_of d2"
    by (rule digits_value_snoc)
  have s2: "digits_value (ip @ [d1]) = 10 * digits_value ip + digit_of d1"
    by (rule digits_value_snoc)
  have s3: "(ip @ [d1]) @ [d2] = ip @ [d1, d2]" by simp
  define x where "x = digits_value ip"
  define r where "r = 10 * digit_of d1 + digit_of d2"
  have r: "r < 100" unfolding r_def using d(1,3) by linarith
  have n: "?n = 100 * x + r"
    using s1 [unfolded s2 s3] by (simp add: x_def r_def)
  have 1: "?n div 100 = digits_value ip" unfolding n using r by (simp add: x_def)
  have "?n mod 100 = r" unfolding n using r by simp
  moreover have "r div 10 = digit_of d1" unfolding r_def using d(3) by simp
  ultimately have 2: "?n mod 100 div 10 = digit_of d1" by simp
  define y where "y = 10 * x + digit_of d1"
  have "?n = 10 * y + digit_of d2" unfolding n r_def y_def by simp
  then have "?n mod 10 = (10 * y + digit_of d2) mod 10" by (rule arg_cong)
  then have 3: "?n mod 10 = digit_of d2" using d(3) by simp
  show ?thesis
    unfolding format_amount_def format_digits_def
    by (simp add: Let_def assms(3,4) 1 2 3 d)
qed

text \<open>
  C5, amended. For every string of the shape of an amount that is written with the ASCII
  digits and without a superfluous leading zero, and that denotes less than
  70 368 744 177 664 (2 to the power 46), the amount parser returns a float, and writing
  that float back with the same locale rule gives the string again, character by
  character.
\<close>
theorem canonical_round_trip:
  assumes "amount_shape a" "canonical a" "amount_cents a < 100 * 2 ^ 46"
  shows "\<exists>x. amount_parser a = Inr x \<and> format_amount x = a"
proof -
  from assms(1) obtain k where k: "k \<in> {1, 2, 3}" "k \<le> length a" "list_all isdecimal (take k a)"
      "amount_tail (drop k a)"
    unfolding amount_shape_def by blast
  define pre where "pre = take k a"
  define t where "t = drop k a"
  have a: "a = pre @ t" by (simp add: pre_def t_def)
  have pre: "pre \<noteq> []" "length pre \<le> 3" "list_all isdecimal pre"
    using k by (auto simp: pre_def)
  have tl: "amount_tail t" using k(4) by (simp add: t_def)
  from group3_tail [OF tl] obtain ipt d1 d2 where
    g: "filter isdecimal t = ipt @ [d1, d2]" "list_all isdecimal ipt" "isdecimal d1" "isdecimal d2"
      "\<And>p. p \<noteq> [] \<Longrightarrow> group3 (p @ ipt) @ COMMA # [d1, d2] = group3 p @ t"
    by blast
  define ip where "ip = pre @ ipt"
  have fp: "filter isdecimal pre = pre" using pre(3) by (simp add: list_all_iff)
  have fa: "filter isdecimal a = ip @ [d1, d2]"
    unfolding a ip_def using fp g(1) by simp
  have low: "\<forall>c \<in> set a. c < 128" using assms(2) by (simp add: canonical_def list_all_iff)
  have "set (ip @ [d1, d2]) \<subseteq> set a" unfolding fa [symmetric] by simp
  then have low': "\<forall>c \<in> set (ip @ [d1, d2]). c < 128" using low by blast
  have "list_all isdecimal (ip @ [d1, d2])" unfolding fa [symmetric] by (simp add: list_all_iff)
  then have ad: "list_all ascii_digit ip" "ascii_digit d1" "ascii_digit d2"
    using low' isdecimal_ascii_digit by (auto simp: list_all_iff)
  have ipd: "ip \<noteq> []" using pre by (simp add: ip_def)
  from binary64_cents [OF assms(3) [unfolded amount_cents_def]] obtain v where
    v: "binary64 (digits_value (filter isdecimal a)) 100 = Finite v" "0 \<le> v"
      "cents v = digits_value (filter isdecimal a)"
    by blast
  have p: "amount_parser a = Inr (Finite v)"
    using amount_parser_shape [OF assms(1)] v(1) by simp
  have canon: "hd ip \<noteq> 48 \<or> ip = [48]"
  proof (cases "take 1 a = [48]")
    case False
    have "hd ip = hd pre" using pre(1) by (simp add: ip_def)
    also have "\<dots> = hd a" using pre(1) by (simp add: a)
    finally have "hd ip = hd a" .
    moreover have "a \<noteq> []" using pre(1) a by simp
    ultimately show ?thesis using False by (cases a) simp_all
  next
    case True
    then have "take 2 a = [48, COMMA]" using assms(2) by (simp add: canonical_def)
    then obtain rest where r: "a = 48 # COMMA # rest"
      by (cases a; cases "tl a") (auto simp: numeral_2_eq_2)
    have nd: "\<not> isdecimal COMMA" using isdecimal_not_sep [of COMMA] by blast
    have "k = 1"
    proof (rule ccontr)
      assume "k \<noteq> 1"
      then have "take k a = 48 # COMMA # take (k - 2) rest"
        using k(1) r by (auto simp: numeral_2_eq_2 numeral_3_eq_3)
      then show False using k(3) nd by simp
    qed
    then have pt: "pre = [48]" "t = COMMA # rest" using r by (simp_all add: pre_def t_def)
    from amount_tail_comma_only [OF tl [unfolded pt(2)]] obtain e1 e2 where
      "rest = [e1, e2]" "isdecimal e1" "isdecimal e2" by blast
    then have "filter isdecimal t = [e1, e2]" using pt(2) nd by simp
    then have "ipt = []" using g(1) by simp
    then show ?thesis using pt(1) by (simp add: ip_def)
  qed
  have "format_amount (Finite v) = group3 (str_nat (digits_value ip)) @ COMMA # [d1, d2]"
    using ad(2,3) v(2) v(3) [unfolded fa] by (rule format_amount_digits)
  also have "str_nat (digits_value ip) = ip"
    using ipd ad(1) canon by (rule str_nat_digits)
  also have "group3 ip @ COMMA # [d1, d2] = group3 pre @ t"
    unfolding ip_def using pre(1) by (rule g(5))
  also have "group3 pre = pre" using pre(2) by (rule group3_short)
  finally have "format_amount (Finite v) = a" unfolding a .
  with p show ?thesis by blast
qed

lemma example_canonical: "canonical (ustr ''1.234,56'')"
  by (simp add: canonical_def)

lemma example_cents: "amount_cents (ustr ''1.234,56'') = 123456"
  by (simp add: amount_cents_def isdecimal_ascii digits_value_def digit_of_ascii)

theorem canonical_round_trip_witness:
  "amount_shape (ustr ''1.234,56'') \<and> canonical (ustr ''1.234,56'') \<and>
   amount_cents (ustr ''1.234,56'') < 100 * 2 ^ 46 \<and>
   format_amount (Finite (2714826150374277 / 2199023255552)) = ustr ''1.234,56''"
proof -
  have c: "amount_cents (ustr ''1.234,56'') < 100 * 2 ^ 46"
    unfolding example_cents by simp
  from canonical_round_trip [OF example_amount_shape example_canonical c] example_amount
  have "format_amount (Finite (2714826150374277 / 2199023255552)) = ustr ''1.234,56''" by simp
  then show ?thesis using example_amount_shape example_canonical c by blast
qed

lemma cents_750: "cents (15 / 2) = 750"
  by (rule cents_nearest) simp_all

lemma cents_123: "cents (2769713770832855 / 2251799813685248) = 123"
  by (rule cents_nearest) simp_all

lemma cents_sixteen: "cents (4503599627370497 / 64) = 7036874417766402"
  by (rule cents_nearest) simp_all

lemmas format_eval = format_amount_def format_digits_def str_nat.simps group3.simps digit_char_def

text \<open>
  C5 as stated fails in three ways. Leading zeros are lost: 007,50 has the shape, it is
  parsed to 7.5 like 7,50, and 7.5 is written back as 7,50. The digits of another script
  are lost: the amount 1,23 written with the Arabic-Indic digits U+0661, U+0662 and
  U+0663 has the shape, it is parsed to the float of 1,23 and written back with the
  ASCII digits. And a float cannot hold every amount: 70.368.744.177.664,01, the first
  amount past 2 to the power 46, is parsed to the float 70368744177664.015625 and
  written back as 70.368.744.177.664,02.
\<close>
theorem round_trip_counterexample:
  "amount_shape (ustr ''007,50'') \<and> amount_parser (ustr ''007,50'') = Inr (Finite (15 / 2)) \<and>
   format_amount (Finite (15 / 2)) = ustr ''7,50'' \<and> ustr ''7,50'' \<noteq> ustr ''007,50'' \<and>
   amount_shape [0x661, COMMA, 0x662, 0x663] \<and>
   amount_parser [0x661, COMMA, 0x662, 0x663] = Inr (Finite (2769713770832855 / 2251799813685248)) \<and>
   format_amount (Finite (2769713770832855 / 2251799813685248)) = ustr ''1,23'' \<and>
   ustr ''1,23'' \<noteq> [0x661, COMMA, 0x662, 0x663] \<and>
   amount_shape (ustr ''70.368.744.177.664,01'') \<and> canonical (ustr ''70.368.744.177.664,01'') \<and>
   amount_cents (ustr ''70.368.744.177.664,01'') = 100 * 2 ^ 46 + 1 \<and>
   amount_parser (ustr ''70.368.744.177.664,01'') = Inr (Finite (4503599627370497 / 64)) \<and>
   format_amount (Finite (4503599627370497 / 64)) = ustr ''70.368.744.177.664,02'' \<and>
   ustr ''70.368.744.177.664,02'' \<noteq> ustr ''70.368.744.177.664,01''"
proof -
  have 1: "amount_shape (ustr ''007,50'')"
    by (simp add: amount_shape_def isdecimal_ascii)
  have 2: "amount_parser (ustr ''007,50'') = Inr (Finite (15 / 2))"
    by (simp add: amount_parser_def replace_def float_eval)
  have 3: "format_amount (Finite (15 / 2)) = ustr ''7,50''"
    by (simp add: format_eval cents_750)
  have 4: "amount_shape [0x661, COMMA, 0x662, 0x663]"
    by (simp add: amount_shape_def isdecimal_def decimal_def digit_zeros_def)
  have 5: "amount_parser [0x661, COMMA, 0x662, 0x663] =
      Inr (Finite (2769713770832855 / 2251799813685248))"
    by (simp add: amount_parser_def replace_def float_eval decimal_def digit_zeros_def)
  have 6: "format_amount (Finite (2769713770832855 / 2251799813685248)) = ustr ''1,23''"
    by (simp add: format_eval cents_123)
  have 7: "amount_shape (ustr ''70.368.744.177.664,01'')"
    by (simp add: amount_shape_def isdecimal_ascii)
  have 8: "canonical (ustr ''70.368.744.177.664,01'')"
    by (simp add: canonical_def)
  have 9: "amount_cents (ustr ''70.368.744.177.664,01'') = 100 * 2 ^ 46 + 1"
    by (simp add: amount_cents_def isdecimal_ascii digits_value_def digit_of_ascii)
  have 10: "amount_parser (ustr ''70.368.744.177.664,01'') = Inr (Finite (4503599627370497 / 64))"
    by (simp add: amount_parser_def replace_def float_eval)
  have 11: "format_amount (Finite (4503599627370497 / 64)) = ustr ''70.368.744.177.664,02''"
    by (simp add: format_eval cents_sixteen)
  from 1 2 3 4 5 6 7 8 9 10 11 show ?thesis by simp
qed

end
